theory Spec2Isabelle
  imports Complex_Main "HOL-Library.Word"
begin

section \<open>Conventions of the embedding\<close>

text \<open>
  The Go sources under \<^verbatim>\<open>pkg/fuzzer\<close> and \<^verbatim>\<open>pkg/flatrpc\<close> are embedded function by
  function. Every method becomes a function that takes the receiver's state as a record
  and returns the updated record next to its result. The locks of the receivers are left
  out: every function below is one critical section, run sequentially.

  \<^item> \<^verbatim>\<open>float64\<close> is \<^typ>\<open>real\<close>: arithmetic, \<^verbatim>\<open>math.Log\<close>, \<^verbatim>\<open>math.Sqrt\<close>,
    \<^verbatim>\<open>math.Abs\<close> and \<^verbatim>\<open>math.Min\<close> are the exact real operations; rounding,
    infinities and NaN are outside the model.
  \<^item> \<^verbatim>\<open>uint64\<close> and \<^verbatim>\<open>int64\<close> are \<^typ>\<open>64 word\<close>; \<open>+\<close> wraps, \<^const>\<open>unat\<close> reads an
    unsigned value and \<^const>\<open>sint\<close> a signed one.
  \<^item> A Go map is a function (with the zero value for a missing key) or a partial map; where
    the code ranges over a map, the order of the iteration is an argument of the function.
\<close>

section \<open>time\_stats.go\<close>

record TimeStats =
  samples :: "64 word list"
  mean :: real
  variance :: real
  stdDev :: real
  count :: "64 word"
  needRecalc :: bool
  maxSamples :: nat

text \<open>
  \<^verbatim>\<open>NewTimeStats\<close>: an empty buffer, every statistic at its zero value. The capacity
  \<^verbatim>\<open>maxSamples\<close> is an \<^verbatim>\<open>int\<close> that only this constructor sets, to 10000: a natural
  number here. \<^verbatim>\<open>count\<close> is an \<^verbatim>\<open>int64\<close>.
\<close>

definition NewTimeStats :: TimeStats where
  "NewTimeStats =
     \<lparr>samples = [], mean = 0, variance = 0, stdDev = 0, count = 0,
      needRecalc = True, maxSamples = 10000\<rparr>"

text \<open>
  Go's built-in \<^verbatim>\<open>copy(dst, src)\<close>: the first \<open>min (len dst) (len src)\<close> elements of
  \<open>dst\<close> are overwritten with those of \<open>src\<close> (overlap is handled as by memmove).
\<close>

definition copy_slice :: "'a list \<Rightarrow> 'a list \<Rightarrow> 'a list" where
  "copy_slice dst src =
     (let n = min (length dst) (length src) in take n src @ drop n dst)"

text \<open>
  \<^verbatim>\<open>AddSample\<close>: append, count, mark dirty; when the buffer is longer than
  \<^verbatim>\<open>maxSamples\<close>, \<^verbatim>\<open>copy(ts.samples, ts.samples[ts.maxSamples/2:])\<close> and then
  \<^verbatim>\<open>ts.samples = ts.samples[:ts.maxSamples/2]\<close>.
\<close>

definition AddSample :: "TimeStats \<Rightarrow> 64 word \<Rightarrow> TimeStats" where
  "AddSample ts execTime =
     (let s1 = samples ts @ [execTime];
          ts1 = ts\<lparr>samples := s1, count := count ts + 1, needRecalc := True\<rparr>
      in if length s1 > maxSamples ts
         then ts1\<lparr>samples :=
                take (maxSamples ts div 2) (copy_slice s1 (drop (maxSamples ts div 2) s1))\<rparr>
         else ts1)"

text \<open>
  \<^verbatim>\<open>recalculateStats\<close>: the sum of the samples is a \<^verbatim>\<open>uint64\<close> and wraps; mean,
  variance and standard deviation are floats.
\<close>

definition samples_sum :: "64 word list \<Rightarrow> 64 word" where
  "samples_sum xs = foldl (+) 0 xs"

definition samples_mean :: "64 word list \<Rightarrow> real" where
  "samples_mean xs = real (unat (samples_sum xs)) / real (length xs)"

definition samples_variance :: "64 word list \<Rightarrow> real" where
  "samples_variance xs =
     foldl (\<lambda>varianceSum sample.
              varianceSum + (real (unat sample) - samples_mean xs) * (real (unat sample) - samples_mean xs))
           0 xs
     / real (length xs)"

definition recalculateStats :: "TimeStats \<Rightarrow> TimeStats" where
  "recalculateStats ts =
     (if length (samples ts) = 0 then ts
      else ts\<lparr>mean := samples_mean (samples ts),
              variance := samples_variance (samples ts),
              stdDev := sqrt (samples_variance (samples ts)),
              needRecalc := False\<rparr>)"

text \<open>
  \<^verbatim>\<open>CalculateAnomalyScore\<close> returns the score and the receiver, whose cached statistics
  it may have recomputed.
\<close>

definition CalculateAnomalyScore :: "TimeStats \<Rightarrow> 64 word \<Rightarrow> real \<times> TimeStats" where
  "CalculateAnomalyScore ts execTime =
     (if sint (count ts) < 10 then (0, ts)
      else let ts1 = (if needRecalc ts then recalculateStats ts else ts)
           in if stdDev ts1 = 0 then (0, ts1)
              else (min (\<bar>real (unat execTime) - mean ts1\<bar> / stdDev ts1 / 2) 1, ts1))"







subsection \<open>Auxiliary notions for the properties of TimeStats\<close>






section \<open>kernel\_log\_matcher.go\<close>

subsection \<open>The regular expressions of the pattern table\<close>

text \<open>
  The patterns of the table are compiled by Go's \<^verbatim>\<open>regexp\<close> package, which is not part of
  the repository. Every pattern of the table is a sequence of literal characters and of
  \<^verbatim>\<open>.*\<close>, so this fragment of the syntax is embedded: a literal character, \<^verbatim>\<open>.\<close> (any
  character but a newline) and \<^verbatim>\<open>.*\<close>. \<^verbatim>\<open>regexp_Compile\<close> gives \<open>None\<close> (the \<^verbatim>\<open>err != nil\<close>
  of the code) for an expression with another metacharacter.
\<close>

datatype re_item = Lit char | AnyChar | AnyStar

definition is_meta :: "char \<Rightarrow> bool" where
  "is_meta c \<longleftrightarrow> c = CHR 0x5C \<or> c \<in> set ''.+*?()|[]{}^$''"

fun regexp_Compile :: "string \<Rightarrow> re_item list option" where
  "regexp_Compile [] = Some []"
| "regexp_Compile [c] =
     (if c = CHR ''.'' then Some [AnyChar]
      else if is_meta c then None
      else Some [Lit c])"
| "regexp_Compile (c # d # cs) =
     (if c = CHR ''.'' \<and> d = CHR ''*'' then map_option ((#) AnyStar) (regexp_Compile cs)
      else if c = CHR ''.'' then map_option ((#) AnyChar) (regexp_Compile (d # cs))
      else if is_meta c then None
      else map_option ((#) (Lit c)) (regexp_Compile (d # cs)))"

text \<open>
  \<open>match_here r s\<close>: the expression \<open>r\<close> matches a prefix of \<open>s\<close>.
  \<^verbatim>\<open>MatchString\<close> is not anchored: it looks for a match that starts anywhere in \<open>s\<close>.
\<close>

fun match_here :: "re_item list \<Rightarrow> string \<Rightarrow> bool" where
  "match_here [] s = True"
| "match_here (Lit c # r) [] = False"
| "match_here (Lit c # r) (x # s) = (x = c \<and> match_here r s)"
| "match_here (AnyChar # r) [] = False"
| "match_here (AnyChar # r) (x # s) = (x \<noteq> CHR 0x0A \<and> match_here r s)"
| "match_here (AnyStar # r) [] = match_here r []"
| "match_here (AnyStar # r) (x # s) =
     (match_here r (x # s) \<or> (x \<noteq> CHR 0x0A \<and> match_here (AnyStar # r) s))"

fun MatchString :: "re_item list \<Rightarrow> string \<Rightarrow> bool" where
  "MatchString r [] = match_here r []"
| "MatchString r (x # s) = (match_here r (x # s) \<or> MatchString r s)"

text \<open>
  \<^verbatim>\<open>strings.TrimSpace\<close> on the ASCII white space (tab, newline, vertical tab, form feed,
  carriage return, space).
\<close>

definition is_space :: "char \<Rightarrow> bool" where
  "is_space c \<longleftrightarrow> c \<in> set [CHR 0x09, CHR 0x0A, CHR 0x0B, CHR 0x0C, CHR 0x0D, CHR '' '']"

definition TrimSpace :: "string \<Rightarrow> string" where
  "TrimSpace s = rev (dropWhile is_space (rev (dropWhile is_space s)))"

subsection \<open>The matcher\<close>

record LogPattern =
  Pattern :: "re_item list"
  Score :: real
  Description :: string

record KernelLogMatcher =
  patterns :: "LogPattern list"

text \<open>The table of \<^verbatim>\<open>initializePatterns\<close>: expression, score, description.\<close>

definition pattern_table :: "(string \<times> real \<times> string) list" where
  "pattern_table =
     [(''KASAN:.*'', 1.0, ''KASAN memory error''),
      (''AddressSanitizer:.*'', 1.0, ''AddressSanitizer error''),
      (''kernel BUG at.*'', 0.9, ''Kernel BUG''),
      (''Kernel panic.*'', 0.9, ''Kernel panic''),
      (''Oops:.*'', 0.8, ''Kernel Oops''),
      (''general protection fault.*'', 0.8, ''General protection fault''),
      (''page fault.*'', 0.7, ''Page fault''),
      (''double fault.*'', 0.9, ''Double fault''),
      (''stack segment.*'', 0.8, ''Stack segment fault''),
      (''possible deadlock.*'', 0.7, ''Possible deadlock''),
      (''lockdep.*'', 0.6, ''Lockdep warning''),
      (''sleeping function called from invalid context.*'', 0.6, ''Invalid sleep context''),
      (''rcu_.*stall.*'', 0.6, ''RCU stall''),
      (''RCU.*'', 0.5, ''RCU related''),
      (''WARNING:.*'', 0.5, ''Kernel warning''),
      (''WARN_ON.*'', 0.5, ''WARN_ON triggered''),
      (''memory leak.*'', 0.6, ''Memory leak''),
      (''refcount_t.*'', 0.6, ''Reference count error''),
      (''EXT4-fs error.*'', 0.4, ''EXT4 filesystem error''),
      (''XFS.*error.*'', 0.4, ''XFS filesystem error''),
      (''net.*warning.*'', 0.3, ''Network warning''),
      (''TCP.*error.*'', 0.3, ''TCP error''),
      (''device.*error.*'', 0.3, ''Device error''),
      (''driver.*warning.*'', 0.2, ''Driver warning''),
      (''ERROR:.*'', 0.4, ''General error''),
      (''error.*'', 0.2, ''Generic error'')]"

text \<open>
  \<^verbatim>\<open>initializePatterns\<close> compiles the table in order and skips an expression that does
  not compile.
\<close>

definition initializePatterns :: "KernelLogMatcher \<Rightarrow> KernelLogMatcher" where
  "initializePatterns klm =
     klm\<lparr>patterns :=
       List.map_filter
         (\<lambda>(regex, score, description).
            map_option (\<lambda>p. \<lparr>Pattern = p, Score = score, Description = description\<rparr>)
              (regexp_Compile regex))
         pattern_table\<rparr>"

definition NewKernelLogMatcher :: KernelLogMatcher where
  "NewKernelLogMatcher = initializePatterns \<lparr>patterns = []\<rparr>"

text \<open>
  \<^verbatim>\<open>CalculateScore\<close>. The loops carry \<^verbatim>\<open>maxScore\<close> and \<^verbatim>\<open>matchedPatterns\<close>; the map
  \<^verbatim>\<open>matchedPatterns\<close> only ever stores \<^verbatim>\<open>true\<close> and is the list of its keys, in the order
  in which they were entered, so that \<^verbatim>\<open>len(matchedPatterns)\<close> is the length of the list.
\<close>

definition match_pattern :: "string \<Rightarrow> real \<times> string list \<Rightarrow> LogPattern \<Rightarrow> real \<times> string list" where
  "match_pattern line acc pattern =
     (case acc of (maxScore, matchedPatterns) \<Rightarrow>
        if MatchString (Pattern pattern) line then
          (let key = Description pattern in
           if key \<notin> set matchedPatterns
           then (if Score pattern > maxScore then Score pattern else maxScore,
                 matchedPatterns @ [key])
           else acc)
        else acc)"

definition scan_log :: "LogPattern list \<Rightarrow> real \<times> string list \<Rightarrow> string \<Rightarrow> real \<times> string list" where
  "scan_log ps acc line =
     (let trimmed = TrimSpace line in
      if trimmed = [] then acc else foldl (match_pattern trimmed) acc ps)"

definition CalculateScore :: "KernelLogMatcher \<Rightarrow> string list \<Rightarrow> real" where
  "CalculateScore klm logs =
     (if length logs = 0 then 0
      else case foldl (scan_log (patterns klm)) (0, []) logs of
        (maxScore, matchedPatterns) \<Rightarrow>
          (let bonusScore = (if length matchedPatterns > 1
                             then real (length matchedPatterns - 1) * 0.1 else 0);
               totalScore = maxScore + bonusScore
           in if totalScore > 1.0 then 1.0 else totalScore))"

section \<open>scoring.go: ScoreTracker\<close>

record ScoreConfig =
  CoverageWeight :: real
  RarityWeight :: real
  KernelLogWeight :: real
  TimeAnomalyWeight :: real
  Enabled :: bool

definition DefaultScoreConfig :: ScoreConfig where
  "DefaultScoreConfig =
     \<lparr>CoverageWeight = 0.4, RarityWeight = 0.3, KernelLogWeight = 0.2,
      TimeAnomalyWeight = 0.1, Enabled = True\<rparr>"

text \<open>
  \<^verbatim>\<open>Timestamp\<close> is a \<^verbatim>\<open>time.Time\<close>, here an integer whose zero is the zero time; the
  functions that read the clock take the value of \<^verbatim>\<open>time.Now()\<close> as an argument.
\<close>

record ProgScore =
  Total :: real
  Coverage :: real
  Rarity :: real
  KernelLog :: real
  TimeAnomaly :: real
  Timestamp :: int

text \<open>
  The type \<^verbatim>\<open>signal.Signal\<close> is a map from the elements of the signal to priorities, of
  a package outside the repository. It is embedded as the list of its elements in the
  order in which \<^verbatim>\<open>ToRaw()\<close> lists them: the keys of a map, hence a list without
  repetitions; \<^verbatim>\<open>nil\<close> and the empty signal are both \<open>[]\<close>, \<^verbatim>\<open>Len()\<close> is its length and
  \<^verbatim>\<open>Empty()\<close> says that it is \<open>[]\<close>. The rendering \<^verbatim>\<open>String()\<close> of a signal is an argument
  \<open>sigString\<close> of the functions that use it.
\<close>

type_synonym Signal = "64 word list"

record ExecutionResult =
  Signal :: Signal
  ExecTime :: "64 word"
  KernelLogs :: "string list"
  Crashed :: bool
  Error :: string

record ScoreTracker =
  scores :: "string \<rightharpoonup> ProgScore"
  pcHitCounts :: "64 word \<Rightarrow> 64 word"
  pathFrequency :: "string \<Rightarrow> 64 word"
  execTimeStats :: TimeStats
  logMatcher :: KernelLogMatcher
  config :: ScoreConfig

text \<open>
  The counters \<^verbatim>\<open>pcHitCounts\<close> and \<^verbatim>\<open>pathFrequency\<close> are maps to \<^verbatim>\<open>int64\<close>, read with the
  zero value for a missing key and never tested for membership: total functions, 0
  everywhere at the start.
\<close>

definition NewScoreTracker :: "ScoreConfig option \<Rightarrow> ScoreTracker" where
  "NewScoreTracker cfg =
     \<lparr>scores = Map.empty,
      pcHitCounts = (\<lambda>pc. 0),
      pathFrequency = (\<lambda>signalKey. 0),
      execTimeStats = NewTimeStats,
      logMatcher = NewKernelLogMatcher,
      config = (case cfg of None \<Rightarrow> DefaultScoreConfig | Some c \<Rightarrow> c)\<rparr>"

text \<open>
  The loop of \<^verbatim>\<open>calculateCoverageScore\<close> over \<^verbatim>\<open>result.Signal.ToRaw()\<close>: one step
  counts the element as new when its hit count is 0, then increments the hit count.
\<close>

definition coverage_step :: "nat \<times> (64 word \<Rightarrow> 64 word) \<Rightarrow> 64 word \<Rightarrow> nat \<times> (64 word \<Rightarrow> 64 word)" where
  "coverage_step acc pc =
     (case acc of (newCoverage, hits) \<Rightarrow>
        (if hits pc = 0 then newCoverage + 1 else newCoverage, hits(pc := hits pc + 1)))"

definition calculateCoverageScore :: "ScoreTracker \<Rightarrow> ExecutionResult \<Rightarrow> real \<times> ScoreTracker" where
  "calculateCoverageScore st result =
     (if Signal result = [] then (0, st)
      else let totalCoverage = length (Signal result) in
           case foldl coverage_step (0, pcHitCounts st) (Signal result) of
             (newCoverage, hits) \<Rightarrow>
               (let st1 = st\<lparr>pcHitCounts := hits\<rparr> in
                if totalCoverage = 0 then (0, st1)
                else let newCoverageRatio = real newCoverage / real totalCoverage;
                         score = ln (1 + newCoverageRatio * exp 1) / ln (1 + exp 1)
                     in (min score 1, st1)))"

definition calculateRarityScore :: "(Signal \<Rightarrow> string) \<Rightarrow> ScoreTracker \<Rightarrow> ExecutionResult \<Rightarrow> real" where
  "calculateRarityScore sigString st result =
     (if Signal result = [] then 0
      else let signalKey = sigString (Signal result);
               frequency = pathFrequency st signalKey
           in if frequency = 0 then 1
              else let score = 1 / (1 + ln (real_of_int (sint frequency)))
                   in min score 1)"

definition calculateKernelLogScore :: "ScoreTracker \<Rightarrow> ExecutionResult \<Rightarrow> real" where
  "calculateKernelLogScore st result =
     (if length (KernelLogs result) = 0 then 0
      else CalculateScore (logMatcher st) (KernelLogs result))"

definition calculateTimeAnomalyScore :: "ScoreTracker \<Rightarrow> ExecutionResult \<Rightarrow> real \<times> ScoreTracker" where
  "calculateTimeAnomalyScore st result =
     (if ExecTime result = 0 then (0, st)
      else case CalculateAnomalyScore (execTimeStats st) (ExecTime result) of
             (score, ts) \<Rightarrow> (score, st\<lparr>execTimeStats := ts\<rparr>))"

definition updateStatistics :: "(Signal \<Rightarrow> string) \<Rightarrow> ScoreTracker \<Rightarrow> ExecutionResult \<Rightarrow> ScoreTracker" where
  "updateStatistics sigString st result =
     (let st1 = (if Signal result \<noteq> []
                 then let signalKey = sigString (Signal result)
                      in st\<lparr>pathFrequency :=
                             (pathFrequency st)(signalKey := pathFrequency st signalKey + 1)\<rparr>
                 else st)
      in if ExecTime result > 0
         then st1\<lparr>execTimeStats := AddSample (execTimeStats st1) (ExecTime result)\<rparr>
         else st1)"

text \<open>
  \<^verbatim>\<open>UpdateScore\<close>: \<open>progHash\<close> is the value of \<^verbatim>\<open>prog.Hash()\<close> and \<open>now\<close> that of
  \<^verbatim>\<open>time.Now()\<close>. The result is the score and the tracker after the call.
\<close>

definition UpdateScore ::
  "(Signal \<Rightarrow> string) \<Rightarrow> ScoreTracker \<Rightarrow> string \<Rightarrow> ExecutionResult \<Rightarrow> int \<Rightarrow> ProgScore \<times> ScoreTracker" where
  "UpdateScore sigString st progHash execResult now =
     (if \<not> Enabled (config st)
      then (\<lparr>Total = 0.5, Coverage = 0, Rarity = 0, KernelLog = 0, TimeAnomaly = 0, Timestamp = 0\<rparr>, st)
      else case calculateCoverageScore st execResult of
        (coverageScore, st1) \<Rightarrow>
          (let rarityScore = calculateRarityScore sigString st1 execResult;
               kernelLogScore = calculateKernelLogScore st1 execResult
           in case calculateTimeAnomalyScore st1 execResult of
             (timeAnomalyScore, st2) \<Rightarrow>
               (let totalScore = CoverageWeight (config st2) * coverageScore +
                                 RarityWeight (config st2) * rarityScore +
                                 KernelLogWeight (config st2) * kernelLogScore +
                                 TimeAnomalyWeight (config st2) * timeAnomalyScore;
                    score = \<lparr>Total = totalScore, Coverage = coverageScore, Rarity = rarityScore,
                             KernelLog = kernelLogScore, TimeAnomaly = timeAnomalyScore,
                             Timestamp = now\<rparr>;
                    st3 = st2\<lparr>scores := (scores st2)(progHash \<mapsto> score)\<rparr>
                in (score, updateStatistics sigString st3 execResult))))"

definition GetScore :: "ScoreTracker \<Rightarrow> string \<Rightarrow> ProgScore" where
  "GetScore st progHash =
     (case scores st progHash of
        Some score \<Rightarrow> score
      | None \<Rightarrow> \<lparr>Total = 0.5, Coverage = 0, Rarity = 0, KernelLog = 0, TimeAnomaly = 0, Timestamp = 0\<rparr>)"

text \<open>
  A history of \<^verbatim>\<open>UpdateScore\<close> calls on a new tracker: each call has its program hash,
  its execution result and its clock value.
\<close>

definition tracker_step ::
  "(Signal \<Rightarrow> string) \<Rightarrow> ScoreTracker \<Rightarrow> string \<times> ExecutionResult \<times> int \<Rightarrow> ScoreTracker" where
  "tracker_step sigString st call =
     (case call of (progHash, execResult, now) \<Rightarrow> snd (UpdateScore sigString st progHash execResult now))"

definition tracker_run ::
  "(Signal \<Rightarrow> string) \<Rightarrow> ScoreConfig option \<Rightarrow> (string \<times> ExecutionResult \<times> int) list \<Rightarrow> ScoreTracker" where
  "tracker_run sigString cfg calls = foldl (tracker_step sigString) (NewScoreTracker cfg) calls"

subsection \<open>GetTopScoredProgs\<close>

text \<open>
  \<open>range_pairs m order\<close> are the pairs that \<^verbatim>\<open>for k, v := range m\<close> visits when the
  iteration goes through the keys in the order \<open>order\<close>. Go leaves the order of the
  iteration over a map open; \<open>range_order m order\<close> says that \<open>order\<close> is one of the orders
  the iteration can take: every key of the map once.
\<close>

definition range_pairs :: "('k \<rightharpoonup> 'v) \<Rightarrow> 'k list \<Rightarrow> ('k \<times> 'v) list" where
  "range_pairs m order = List.map_filter (\<lambda>k. map_option (Pair k) (m k)) order"

definition range_order :: "('k \<rightharpoonup> 'v) \<Rightarrow> 'k list \<Rightarrow> bool" where
  "range_order m order \<longleftrightarrow> distinct order \<and> set order = dom m"

text \<open>
  The two nested loops that sort \<^verbatim>\<open>progs\<close> by descending score: for every \<open>i\<close> and every
  \<open>j > i\<close>, the entries at \<open>i\<close> and \<open>j\<close> are exchanged when the score at \<open>i\<close> is smaller.
\<close>

definition swap_if_less :: "nat \<Rightarrow> (string \<times> real) list \<Rightarrow> nat \<Rightarrow> (string \<times> real) list" where
  "swap_if_less i progs j =
     (if snd (progs ! i) < snd (progs ! j) then progs[i := progs ! j, j := progs ! i] else progs)"

definition sort_pass :: "(string \<times> real) list \<Rightarrow> nat \<Rightarrow> (string \<times> real) list" where
  "sort_pass progs i = foldl (swap_if_less i) progs [i + 1..<length progs]"

definition sort_desc :: "(string \<times> real) list \<Rightarrow> (string \<times> real) list" where
  "sort_desc progs = foldl sort_pass progs [0..<length progs - 1]"

text \<open>
  \<^verbatim>\<open>make([]string, 0, limit)\<close> panics at run time when \<^verbatim>\<open>limit\<close> is negative (and when the
  capacity is beyond what can be allocated, which is not modelled); the loop that follows
  copies the first \<^verbatim>\<open>limit\<close> hashes, or all of them when there are fewer.
\<close>

datatype go_panic = MakesliceCapOutOfRange

definition GetTopScoredProgs :: "string list \<Rightarrow> ScoreTracker \<Rightarrow> int \<Rightarrow> go_panic + string list" where
  "GetTopScoredProgs order st limit =
     (let progs = map (\<lambda>(hash, score). (hash, Total score)) (range_pairs (scores st) order);
          sorted_progs = sort_desc progs
      in if limit < 0 then Inl MakesliceCapOutOfRange
         else Inr (map fst (take (nat limit) sorted_progs)))"

subsection \<open>Auxiliary notions for the properties of GetTopScoredProgs\<close>

text \<open>
  What one pass of the inner loop at position \<open>i\<close> keeps: the length, the entries before
  \<open>i\<close>, the set of the entries from \<open>i\<close> on, and whether the entries are distinct. What the
  outer loop has reached after \<open>I\<close> passes: no entry behind one of the first \<open>I\<close> entries
  has a greater score.
\<close>

definition pass_inv :: "nat \<Rightarrow> (string \<times> real) list \<Rightarrow> (string \<times> real) list \<Rightarrow> bool" where
  "pass_inv i xs ys \<longleftrightarrow>
     length ys = length xs \<and> take i ys = take i xs \<and> set (drop i ys) = set (drop i xs) \<and>
     distinct ys = distinct xs"

definition sorted_upto :: "nat \<Rightarrow> (string \<times> real) list \<Rightarrow> bool" where
  "sorted_upto I ys \<longleftrightarrow> (\<forall>a b. a < I \<and> a < b \<and> b < length ys \<longrightarrow> snd (ys ! b) \<le> snd (ys ! a))"


subsection \<open>Auxiliary notions for the properties of ScoreTracker\<close>

text \<open>
  The elements of the signal of \<open>r\<close> whose hit count is 0 in the tracker \<open>st\<close>, and their
  share of the signal: the \<^verbatim>\<open>newCoverageRatio\<close> of the specification.
\<close>

definition new_elements :: "ScoreTracker \<Rightarrow> ExecutionResult \<Rightarrow> 64 word list" where
  "new_elements st r = filter (\<lambda>pc. pcHitCounts st pc = 0) (Signal r)"

definition new_ratio :: "ScoreTracker \<Rightarrow> ExecutionResult \<Rightarrow> real" where
  "new_ratio st r = real (length (new_elements st r)) / real (length (Signal r))"

text \<open>The number of the outcomes of a history whose signal contains the element \<open>pc\<close>.\<close>

definition outcomes_containing :: "64 word \<Rightarrow> (string \<times> ExecutionResult \<times> int) list \<Rightarrow> nat" where
  "outcomes_containing pc calls = length (filter (\<lambda>c. pc \<in> set (Signal (fst (snd c)))) calls)"

text \<open>The rarity that the specification gives to a signature seen \<open>frequency\<close> times.\<close>

definition rarity_of :: "64 word \<Rightarrow> real" where
  "rarity_of frequency =
     (if frequency = 0 then 1 else min (1 / (1 + ln (real_of_int (sint frequency)))) 1)"

text \<open>
  Concrete inputs: an execution result with a given signal and nothing else, and a
  rendering of signals that tells \<open>[1]\<close> and \<open>[2]\<close> apart.
\<close>

definition wit_result :: "64 word list \<Rightarrow> ExecutionResult" where
  "wit_result sig = \<lparr>Signal = sig, ExecTime = 0, KernelLogs = [], Crashed = False, Error = []\<rparr>"

definition wit_sigString :: "Signal \<Rightarrow> string" where
  "wit_sigString s = (if s = [1] then ''[1]'' else if s = [2] then ''[2]'' else ''[...]'')"

section \<open>scoring.go: WeightedSelector\<close>

record WeightedSelector =
  weights :: "string \<rightharpoonup> real"
  cumulativeWeights :: "real list"
  progHashes :: "string list"
  needRebuild :: bool

definition NewWeightedSelector :: WeightedSelector where
  "NewWeightedSelector =
     \<lparr>weights = Map.empty, cumulativeWeights = [], progHashes = [], needRebuild = True\<rparr>"

definition UpdateWeight :: "WeightedSelector \<Rightarrow> string \<Rightarrow> real \<Rightarrow> WeightedSelector" where
  "UpdateWeight ws progHash weight =
     ws\<lparr>weights := (weights ws)(progHash \<mapsto> weight), needRebuild := True\<rparr>"

text \<open>
  \<^verbatim>\<open>rebuildWeightTable\<close>: both arrays are emptied, then the loop over the map appends, for
  every positive weight, the running sum and the hash. \<open>order\<close> is the order that the
  iteration over \<^verbatim>\<open>ws.weights\<close> takes in this call.
\<close>

definition rebuild_step :: "real \<times> real list \<times> string list \<Rightarrow> string \<times> real \<Rightarrow> real \<times> real list \<times> string list" where
  "rebuild_step acc entry =
     (case acc of (cumulative, cws, hashes) \<Rightarrow>
      case entry of (hash, weight) \<Rightarrow>
        if weight > 0
        then (cumulative + weight, cws @ [cumulative + weight], hashes @ [hash])
        else acc)"

definition rebuildWeightTable :: "string list \<Rightarrow> WeightedSelector \<Rightarrow> WeightedSelector" where
  "rebuildWeightTable order ws =
     (case foldl rebuild_step (0, [], []) (range_pairs (weights ws) order) of
        (cumulative, cws, hashes) \<Rightarrow>
          ws\<lparr>cumulativeWeights := cws, progHashes := hashes, needRebuild := False\<rparr>)"

text \<open>The binary search of \<^verbatim>\<open>SelectWeighted\<close>, from \<^verbatim>\<open>left\<close> and \<^verbatim>\<open>right\<close>.\<close>

function binary_search :: "real list \<Rightarrow> real \<Rightarrow> nat \<Rightarrow> nat \<Rightarrow> nat" where
  "binary_search cws target left right =
     (if left < right
      then let mid = (left + right) div 2
           in if cws ! mid < target
              then binary_search cws target (mid + 1) right
              else binary_search cws target left mid
      else left)"
  by pat_completeness auto
termination
  by (relation "measure (\<lambda>(cws, target, left, right). right - left)") auto

declare binary_search.simps [simp del]

text \<open>
  \<^verbatim>\<open>SelectWeighted\<close> returns the selected hash (the empty string when nothing can be
  selected) and the selector, whose table it may have rebuilt.
\<close>

definition SelectWeighted :: "string list \<Rightarrow> WeightedSelector \<Rightarrow> real \<Rightarrow> string \<times> WeightedSelector" where
  "SelectWeighted order ws rnd =
     (let ws1 = (if needRebuild ws then rebuildWeightTable order ws else ws)
      in if length (cumulativeWeights ws1) = 0 then ([], ws1)
         else let target = rnd * cumulativeWeights ws1 ! (length (cumulativeWeights ws1) - 1);
                  left = binary_search (cumulativeWeights ws1) target 0
                           (length (cumulativeWeights ws1) - 1)
              in (progHashes ws1 ! left, ws1))"

text \<open>
  The selectors that the code can produce: a new one, one after \<^verbatim>\<open>UpdateWeight\<close>, and one
  after \<^verbatim>\<open>SelectWeighted\<close>, whose iteration over the map takes some order of its keys.
\<close>

inductive ws_reachable :: "WeightedSelector \<Rightarrow> bool" where
  reach_New: "ws_reachable NewWeightedSelector"
| reach_UpdateWeight: "ws_reachable ws \<Longrightarrow> ws_reachable (UpdateWeight ws progHash weight)"
| reach_SelectWeighted:
    "ws_reachable ws \<Longrightarrow> range_order (weights ws) order \<Longrightarrow>
     ws_reachable (snd (SelectWeighted order ws rnd))"

subsection \<open>Auxiliary notions for the properties of WeightedSelector\<close>

text \<open>
  The entries with a positive weight, in the order of the iteration; the running sums of a
  list of weights, from a start value; the sum of all positive weights of a weight map.
\<close>

definition positive_entries :: "(string \<rightharpoonup> real) \<Rightarrow> string list \<Rightarrow> (string \<times> real) list" where
  "positive_entries m order = filter (\<lambda>entry. snd entry > 0) (range_pairs m order)"

fun prefix_sums :: "real \<Rightarrow> real list \<Rightarrow> real list" where
  "prefix_sums c [] = []"
| "prefix_sums c (w # ws) = (c + w) # prefix_sums (c + w) ws"

definition total_positive :: "(string \<rightharpoonup> real) \<Rightarrow> real" where
  "total_positive m = (\<Sum>h \<in> {h \<in> dom m. the (m h) > 0}. the (m h))"

text \<open>
  The table of a selector is up to date: it is the one that a rebuild builds from the
  present weights, for some order of the iteration.
\<close>

definition table_of :: "(string \<rightharpoonup> real) \<Rightarrow> string list \<Rightarrow> WeightedSelector \<Rightarrow> bool" where
  "table_of m order ws \<longleftrightarrow>
     cumulativeWeights ws = prefix_sums 0 (map snd (positive_entries m order)) \<and>
     progHashes ws = map fst (positive_entries m order)"

definition ws_inv :: "WeightedSelector \<Rightarrow> bool" where
  "ws_inv ws \<longleftrightarrow>
     needRebuild ws \<or> (\<exists>order. range_order (weights ws) order \<and> table_of (weights ws) order ws)"

text \<open>Concrete selectors: the weights 1 and 9, and the weights 1 and -2.\<close>

definition wit_selector :: WeightedSelector where
  "wit_selector = UpdateWeight (UpdateWeight NewWeightedSelector ''A'' 1) ''B'' 9"


section \<open>scoring\_extensions.go: ScoreMetrics\<close>

record ScoreMetrics =
  TotalRequests :: "64 word"
  ScoreSelectedRequests :: "64 word"
  AverageScore :: real
  MaxScore :: real
  MinScore :: real
  AvgCoverageScore :: real
  AvgRarityScore :: real
  AvgKernelLogScore :: real
  AvgTimeAnomalyScore :: real
  TotalScoreCalculationTime :: "64 word"
  TotalSmashJobs :: "64 word"
  TotalSmashMutations :: "64 word"
  SuccessfulMutations :: "64 word"
  AverageSmashBaseScore :: real
  LastUpdated :: int

definition NewScoreMetrics :: "int \<Rightarrow> ScoreMetrics" where
  "NewScoreMetrics now =
     \<lparr>TotalRequests = 0, ScoreSelectedRequests = 0, AverageScore = 0, MaxScore = 0,
      MinScore = 1.0, AvgCoverageScore = 0, AvgRarityScore = 0, AvgKernelLogScore = 0,
      AvgTimeAnomalyScore = 0, TotalScoreCalculationTime = 0, TotalSmashJobs = 0,
      TotalSmashMutations = 0, SuccessfulMutations = 0, AverageSmashBaseScore = 0,
      LastUpdated = now\<rparr>"

text \<open>
  The division of two \<^verbatim>\<open>float64\<close> whose divisor the code does not guard. A division by
  zero does not panic in Go: its result is an infinity or NaN, which is no real number,
  here \<open>None\<close>.
\<close>

definition float_div :: "real \<Rightarrow> real \<Rightarrow> real option" where
  "float_div x y = (if y = 0 then None else Some (x / y))"

text \<open>
  \<^verbatim>\<open>UpdateMetrics\<close>; \<open>now\<close> is the value of \<^verbatim>\<open>time.Now()\<close>. \<^verbatim>\<open>float64(sm.TotalRequests)\<close>
  is the signed value of the counter.
\<close>

definition UpdateMetrics :: "ScoreMetrics \<Rightarrow> real \<Rightarrow> bool \<Rightarrow> 64 word \<Rightarrow> int \<Rightarrow> ScoreMetrics option" where
  "UpdateMetrics sm score scoreSelected calculationTime now =
     (let sm1 = sm\<lparr>TotalRequests := TotalRequests sm + 1\<rparr>;
          sm2 = (if scoreSelected
                 then sm1\<lparr>ScoreSelectedRequests := ScoreSelectedRequests sm1 + 1\<rparr> else sm1);
          sm3 = (if TotalRequests sm2 = 1
                 then Some (sm2\<lparr>AverageScore := score, MaxScore := score, MinScore := score\<rparr>)
                 else map_option
                        (\<lambda>avg. sm2\<lparr>AverageScore := avg,
                                    MaxScore := (if score > MaxScore sm2 then score else MaxScore sm2),
                                    MinScore := (if score < MinScore sm2 then score else MinScore sm2)\<rparr>)
                        (float_div
                           (AverageScore sm2 * real_of_int (sint (TotalRequests sm2 - 1)) + score)
                           (real_of_int (sint (TotalRequests sm2)))))
      in map_option
           (\<lambda>s. s\<lparr>TotalScoreCalculationTime := TotalScoreCalculationTime s + calculationTime,
                   LastUpdated := now\<rparr>)
           sm3)"

text \<open>
  \<^verbatim>\<open>UpdateDimensionScores\<close>: with \<^verbatim>\<open>count := float64(sm.TotalRequests)\<close>, each of the
  four running averages becomes \<^verbatim>\<open>(avg*(count-1) + x) / count\<close> unless the counter is 1.
\<close>

definition running_avg :: "real \<Rightarrow> real \<Rightarrow> real \<Rightarrow> real option" where
  "running_avg avg cnt x = float_div (avg * (cnt - 1) + x) cnt"

definition UpdateDimensionScores ::
  "ScoreMetrics \<Rightarrow> real \<Rightarrow> real \<Rightarrow> real \<Rightarrow> real \<Rightarrow> ScoreMetrics option" where
  "UpdateDimensionScores sm coverage rarity kernelLog timeAnomaly =
     (if TotalRequests sm = 1
      then Some (sm\<lparr>AvgCoverageScore := coverage, AvgRarityScore := rarity,
                    AvgKernelLogScore := kernelLog, AvgTimeAnomalyScore := timeAnomaly\<rparr>)
      else let cnt = real_of_int (sint (TotalRequests sm)) in
           case (running_avg (AvgCoverageScore sm) cnt coverage,
                 running_avg (AvgRarityScore sm) cnt rarity,
                 running_avg (AvgKernelLogScore sm) cnt kernelLog,
                 running_avg (AvgTimeAnomalyScore sm) cnt timeAnomaly) of
             (Some c, Some r, Some k, Some t) \<Rightarrow>
               Some (sm\<lparr>AvgCoverageScore := c, AvgRarityScore := r,
                         AvgKernelLogScore := k, AvgTimeAnomalyScore := t\<rparr>)
           | _ \<Rightarrow> None)"

section \<open>Properties of TimeStats\<close>

subsection \<open>AddSample\<close>

lemma AddSample_full_buffer:
  assumes "length (samples ts) = maxSamples ts"
  shows "samples (AddSample ts x) =
           take (maxSamples ts div 2) (drop (maxSamples ts div 2) (samples ts))"
  using assms by (simp add: AddSample_def copy_slice_def Let_def min_def)

lemma AddSample_below:
  "length (samples ts) < maxSamples ts \<Longrightarrow> samples (AddSample ts x) = samples ts @ [x]"
  by (simp add: AddSample_def Let_def)

lemma AddSample_fields:
  "maxSamples (AddSample ts x) = maxSamples ts"
  "count (AddSample ts x) = count ts + 1"
  "needRecalc (AddSample ts x) = True"
  "stdDev (AddSample ts x) = stdDev ts"
  "mean (AddSample ts x) = mean ts"
  by (simp_all add: AddSample_def Let_def)

lemma fill_buffer:
  "n \<le> 10000 \<Longrightarrow>
   samples (foldl AddSample NewTimeStats (map of_nat [0..<n])) = map of_nat [0..<n]
   \<and> maxSamples (foldl AddSample NewTimeStats (map of_nat [0..<n])) = 10000"
proof (induction n)
  case 0
  then show ?case by (simp add: NewTimeStats_def)
next
  case (Suc n)
  then show ?case by (simp add: AddSample_below AddSample_fields del: upt_rec_numeral)
qed

text \<open>
  Claim C6. The claim: whenever \<^verbatim>\<open>AddSample\<close> makes the buffer exceed \<^verbatim>\<open>maxSamples\<close>,
  the compaction keeps exactly the newest half of the samples, the sample just appended
  among them, and drops only the oldest ones.

  The code does not: on a fresh \<^verbatim>\<open>TimeStats\<close>, after \<^verbatim>\<open>AddSample(0)\<close>, ...,
  \<^verbatim>\<open>AddSample(9999)\<close> the buffer is full, and \<^verbatim>\<open>AddSample(10000)\<close> leaves the samples
  \<open>5000, ..., 9999\<close>. The oldest 5000 samples are dropped, and so is the sample 10000 that
  was just appended: the slice is cut to its first \<^verbatim>\<open>maxSamples/2\<close> elements after the
  copy, although \<^verbatim>\<open>maxSamples/2 + 1\<close> elements were moved to the front.
\<close>

theorem AddSample_drops_newest:
  "samples (foldl AddSample NewTimeStats (map of_nat [0..<10001])) = map of_nat [5000..<10000]"
proof -
  have u: "[0..<10001] = [0..<10000] @ [10000]"
    using upt_Suc_append[of 0 10000] by (simp del: upt_rec_numeral)
  let ?ts = "foldl AddSample NewTimeStats (map of_nat [0..<10000])"
  have s: "samples ?ts = map of_nat [0..<10000]" and m: "maxSamples ?ts = 10000"
    using fill_buffer[of 10000] by (simp_all del: upt_rec_numeral)
  have "samples (AddSample ?ts (of_nat 10000)) =
          take (10000 div 2) (drop (10000 div 2) (samples ?ts))"
    using AddSample_full_buffer[of ?ts "of_nat 10000"] s m by (simp del: upt_rec_numeral)
  also have "\<dots> = map of_nat [5000..<10000]"
    by (simp add: s drop_map take_map del: upt_rec_numeral)
  finally show ?thesis by (simp add: u del: upt_rec_numeral)
qed

subsection \<open>The invariant of TimeStats\<close>












subsection \<open>CalculateAnomalyScore\<close>















section \<open>Properties of KernelLogMatcher\<close>

lemmas klm_defs = NewKernelLogMatcher_def initializePatterns_def pattern_table_def
  List.map_filter_simps is_meta_def scan_log_def TrimSpace_def is_space_def match_pattern_def

text \<open>What the two loops of \<^verbatim>\<open>CalculateScore\<close> leave in \<^verbatim>\<open>maxScore\<close> and \<^verbatim>\<open>matchedPatterns\<close>.\<close>

lemma scan_kasan:
  "foldl (scan_log (patterns NewKernelLogMatcher)) (0, []) [''KASAN: use-after-free in foo'']
     = (1, [''KASAN memory error''])"
  by (simp add: klm_defs)

lemma scan_normal:
  "foldl (scan_log (patterns NewKernelLogMatcher)) (0, []) [''normal log message''] = (0, [])"
  by (simp add: klm_defs)

lemma scan_warning_kasan:
  "foldl (scan_log (patterns NewKernelLogMatcher)) (0, []) [''WARNING: x'', ''KASAN: y'']
     = (1, [''Kernel warning'', ''KASAN memory error''])"
  by (simp add: klm_defs)

lemma scan_warning_deadlock:
  "foldl (scan_log (patterns NewKernelLogMatcher)) (0, []) [''WARNING: x'', ''possible deadlock'']
     = (7 / 10, [''Kernel warning'', ''Possible deadlock''])"
  by (simp add: klm_defs)

text \<open>
  Claim C5, as stated, says that \<^verbatim>\<open>CalculateScore(["WARNING: x", "possible deadlock"])\<close>
  is exactly 0.6. The table gives the deadlock pattern the score 0.7, not 0.5, so the
  maximum is 0.7 and the result is not 0.6.
\<close>

theorem CalculateScore_deadlock_counterexample:
  "CalculateScore NewKernelLogMatcher [''WARNING: x'', ''possible deadlock''] \<noteq> 0.6"
  unfolding CalculateScore_def scan_warning_deadlock by simp

text \<open>
  Claim C5, amended. Under the default pattern table,
  \<^verbatim>\<open>CalculateScore(["KASAN: use-after-free in foo"])\<close> is exactly 1,
  \<^verbatim>\<open>CalculateScore(["normal log message"])\<close> is exactly 0,
  \<^verbatim>\<open>CalculateScore(["WARNING: x", "KASAN: y"])\<close> is 1 (the maximum 1 plus the bonus,
  clamped), and \<^verbatim>\<open>CalculateScore(["WARNING: x", "possible deadlock"])\<close> is \<open>0.7 + 0.1\<close>:
  the maximum of the two matched categories is the 0.7 of the deadlock pattern, and the
  bonus for the second category is 0.1.
\<close>

theorem CalculateScore_literals:
  "CalculateScore NewKernelLogMatcher [''KASAN: use-after-free in foo''] = 1 \<and>
   CalculateScore NewKernelLogMatcher [''normal log message''] = 0 \<and>
   CalculateScore NewKernelLogMatcher [''WARNING: x'', ''KASAN: y''] = 1 \<and>
   CalculateScore NewKernelLogMatcher [''WARNING: x'', ''possible deadlock''] = 0.7 + 0.1"
  unfolding CalculateScore_def scan_kasan scan_normal scan_warning_kasan scan_warning_deadlock
  by simp

section \<open>Properties of ScoreTracker\<close>

subsection \<open>What a call leaves unchanged\<close>

lemma calculateTimeAnomalyScore_frame:
  "pcHitCounts (snd (calculateTimeAnomalyScore st r)) = pcHitCounts st"
  "pathFrequency (snd (calculateTimeAnomalyScore st r)) = pathFrequency st"
  "config (snd (calculateTimeAnomalyScore st r)) = config st"
  by (simp_all add: calculateTimeAnomalyScore_def split_beta)

lemma calculateCoverageScore_config:
  "config (snd (calculateCoverageScore st r)) = config st"
  by (simp add: calculateCoverageScore_def Let_def split_beta)

lemma updateStatistics_frame:
  "pcHitCounts (updateStatistics f st r) = pcHitCounts st"
  "config (updateStatistics f st r) = config st"
  by (simp_all add: updateStatistics_def Let_def)

lemma UpdateScore_config: "config (snd (UpdateScore f st h r now)) = config st"
  using calculateTimeAnomalyScore_frame(3)[of "snd (calculateCoverageScore st r)" r]
    calculateCoverageScore_config[of st r]
  by (simp add: UpdateScore_def Let_def updateStatistics_frame split_beta)

lemma calculateCoverageScore_pathFrequency:
  "pathFrequency (snd (calculateCoverageScore st r)) = pathFrequency st"
  by (simp add: calculateCoverageScore_def Let_def split_beta)


subsection \<open>A disabled tracker\<close>

text \<open>
  Claim C2. When the configuration of the tracker has \<^verbatim>\<open>Enabled = false\<close>, \<^verbatim>\<open>UpdateScore\<close>
  returns, for every program and execution outcome, the score with \<^verbatim>\<open>Total = 0.5\<close> and
  every dimension (and the timestamp) at its zero value, and the tracker after the call is
  the tracker before it: the cache of the scores, \<^verbatim>\<open>pcHitCounts\<close>, \<^verbatim>\<open>pathFrequency\<close> and
  the sample buffer of the time statistics are the same.
\<close>

theorem UpdateScore_disabled:
  "\<not> Enabled (config st) \<Longrightarrow>
   fst (UpdateScore sigString st progHash execResult now) =
     \<lparr>Total = 0.5, Coverage = 0, Rarity = 0, KernelLog = 0, TimeAnomaly = 0, Timestamp = 0\<rparr> \<and>
   snd (UpdateScore sigString st progHash execResult now) = st \<and>
   scores (snd (UpdateScore sigString st progHash execResult now)) = scores st \<and>
   pcHitCounts (snd (UpdateScore sigString st progHash execResult now)) = pcHitCounts st \<and>
   pathFrequency (snd (UpdateScore sigString st progHash execResult now)) = pathFrequency st \<and>
   samples (execTimeStats (snd (UpdateScore sigString st progHash execResult now))) =
     samples (execTimeStats st)"
  by (simp add: UpdateScore_def)

theorem UpdateScore_disabled_witness:
  "\<not> Enabled (config (NewScoreTracker (Some (DefaultScoreConfig\<lparr>Enabled := False\<rparr>)))) \<and>
   Total (fst (UpdateScore wit_sigString
                 (NewScoreTracker (Some (DefaultScoreConfig\<lparr>Enabled := False\<rparr>)))
                 ''p'' \<lparr>Signal = [1, 2], ExecTime = 5, KernelLogs = [''KASAN: x''],
                        Crashed = False, Error = []\<rparr> 7)) = 0.5 \<and>
   snd (UpdateScore wit_sigString
          (NewScoreTracker (Some (DefaultScoreConfig\<lparr>Enabled := False\<rparr>)))
          ''p'' \<lparr>Signal = [1, 2], ExecTime = 5, KernelLogs = [''KASAN: x''],
                 Crashed = False, Error = []\<rparr> 7)
     = NewScoreTracker (Some (DefaultScoreConfig\<lparr>Enabled := False\<rparr>))"
proof -
  have d: "\<not> Enabled (config (NewScoreTracker (Some (DefaultScoreConfig\<lparr>Enabled := False\<rparr>))))"
    by (simp add: NewScoreTracker_def)
  show ?thesis
    using d UpdateScore_disabled[OF d, of wit_sigString "''p''"
        "\<lparr>Signal = [1, 2], ExecTime = 5, KernelLogs = [''KASAN: x''], Crashed = False, Error = []\<rparr>" 7]
    by simp
qed


subsection \<open>The coverage dimension\<close>

lemma coverage_loop:
  "distinct xs \<Longrightarrow>
   foldl coverage_step (n, h) xs =
     (n + length (filter (\<lambda>pc. h pc = 0) xs), \<lambda>pc. if pc \<in> set xs then h pc + 1 else h pc)"
proof (induction xs arbitrary: n h)
  case Nil
  then show ?case by simp
next
  case (Cons x xs)
  let ?n = "if h x = 0 then n + 1 else n"
  let ?h = "h(x := h x + 1)"
  have x: "x \<notin> set xs" and d: "distinct xs" using Cons.prems by simp_all
  have step: "coverage_step (n, h) x = (?n, ?h)" by (simp add: coverage_step_def)
  have f: "filter (\<lambda>pc. ?h pc = 0) xs = filter (\<lambda>pc. h pc = 0) xs"
    using x by (intro filter_cong) auto
  have g: "(\<lambda>pc. if pc \<in> set xs then ?h pc + 1 else ?h pc) =
           (\<lambda>pc. if pc \<in> set (x # xs) then h pc + 1 else h pc)"
    using x by (intro ext) auto
  have "foldl coverage_step (n, h) (x # xs) = foldl coverage_step (?n, ?h) xs"
    by (simp only: foldl_Cons step)
  also have "\<dots> = (?n + length (filter (\<lambda>pc. ?h pc = 0) xs),
                    \<lambda>pc. if pc \<in> set xs then ?h pc + 1 else ?h pc)"
    by (rule Cons.IH[OF d])
  also have "\<dots> = (n + length (filter (\<lambda>pc. h pc = 0) (x # xs)),
                    \<lambda>pc. if pc \<in> set (x # xs) then h pc + 1 else h pc)"
    unfolding f g by simp
  finally show ?case .
qed

lemma calculateCoverageScore_eq:
  assumes "distinct (Signal r)"
  shows "calculateCoverageScore st r =
     (if Signal r = [] then (0, st)
      else (min (ln (1 + new_ratio st r * exp 1) / ln (1 + exp 1)) 1,
            st\<lparr>pcHitCounts := (\<lambda>pc. if pc \<in> set (Signal r) then pcHitCounts st pc + 1 else pcHitCounts st pc)\<rparr>))"
  using assms
  by (simp add: calculateCoverageScore_def coverage_loop new_ratio_def new_elements_def Let_def)

lemma UpdateScore_enabled_Coverage:
  "Enabled (config st) \<Longrightarrow>
   Coverage (fst (UpdateScore f st h r now)) = fst (calculateCoverageScore st r)"
  by (simp add: UpdateScore_def Let_def split_beta)

lemma UpdateScore_enabled_pcHitCounts:
  "Enabled (config st) \<Longrightarrow>
   pcHitCounts (snd (UpdateScore f st h r now)) = pcHitCounts (snd (calculateCoverageScore st r))"
  using calculateTimeAnomalyScore_frame(1)[of "snd (calculateCoverageScore st r)" r]
  by (simp add: UpdateScore_def Let_def updateStatistics_frame split_beta)

lemma UpdateScore_step_pcHitCounts:
  assumes "Enabled (config st)" "distinct (Signal r)"
  shows "pcHitCounts (snd (UpdateScore f st h r now)) pc =
           (if pc \<in> set (Signal r) then pcHitCounts st pc + 1 else pcHitCounts st pc)"
  using assms by (simp add: UpdateScore_enabled_pcHitCounts calculateCoverageScore_eq)

lemma tracker_foldl_pcHitCounts:
  assumes "Enabled (config st)" "\<forall>c \<in> set calls. distinct (Signal (fst (snd c)))"
  shows "pcHitCounts (foldl (tracker_step f) st calls) pc =
           pcHitCounts st pc + of_nat (outcomes_containing pc calls)"
  using assms
proof (induction calls arbitrary: st)
  case Nil
  then show ?case by (simp add: outcomes_containing_def)
next
  case (Cons c calls)
  obtain h r now where c: "c = (h, r, now)" by (cases c) auto
  let ?st1 = "snd (UpdateScore f st h r now)"
  have e: "Enabled (config ?st1)" using Cons.prems(1) by (simp add: UpdateScore_config)
  have d: "distinct (Signal r)" using Cons.prems(2) c by simp
  have u: "foldl (tracker_step f) st (c # calls) = foldl (tracker_step f) ?st1 calls"
    by (simp add: c tracker_step_def)
  have ih: "pcHitCounts (foldl (tracker_step f) ?st1 calls) pc =
          pcHitCounts ?st1 pc + of_nat (outcomes_containing pc calls)"
    using Cons.IH[OF e] Cons.prems(2) by simp
  have s1: "pcHitCounts ?st1 pc =
          (if pc \<in> set (Signal r) then pcHitCounts st pc + 1 else pcHitCounts st pc)"
    by (rule UpdateScore_step_pcHitCounts[OF Cons.prems(1) d])
  have o: "outcomes_containing pc (c # calls) =
          (if pc \<in> set (Signal r) then Suc (outcomes_containing pc calls)
           else outcomes_containing pc calls)"
    by (simp add: outcomes_containing_def c)
  show ?case unfolding u ih s1 o by simp
qed

lemma outcomes_containing_le: "outcomes_containing pc calls \<le> length calls"
  by (simp add: outcomes_containing_def)

lemma of_nat_word64_nonzero:
  assumes "0 < n" "n < 2 ^ 64"
  shows "(of_nat n :: 64 word) \<noteq> 0"
proof
  assume "(of_nat n :: 64 word) = 0"
  then have "2 ^ LENGTH(64) dvd n" by (simp only: word_of_nat_eq_0_iff)
  then have "(2::nat) ^ 64 \<le> n" using assms(1) by (auto dest: dvd_imp_le)
  then show False using assms(2) by simp
qed


lemma NewScoreTracker_pcHitCounts: "pcHitCounts (NewScoreTracker cfg) pc = 0"
  by (simp add: NewScoreTracker_def)

lemma tracker_run_pcHitCounts:
  assumes "Enabled (config (NewScoreTracker cfg))"
    "\<forall>c \<in> set calls. distinct (Signal (fst (snd c)))"
  shows "pcHitCounts (tracker_run f cfg calls) pc = of_nat (outcomes_containing pc calls)"
  unfolding tracker_run_def
  using tracker_foldl_pcHitCounts[OF assms, of f pc] by (simp add: NewScoreTracker_pcHitCounts)

lemma tracker_run_seen_nonzero:
  assumes "Enabled (config (NewScoreTracker cfg))"
    "\<forall>c \<in> set calls. distinct (Signal (fst (snd c)))"
    "length calls < 2 ^ 64" "0 < outcomes_containing pc calls"
  shows "pcHitCounts (tracker_run f cfg calls) pc \<noteq> 0"
proof -
  have "outcomes_containing pc calls < 2 ^ 64"
    using outcomes_containing_le[of pc calls] assms(3) by simp
  then show ?thesis
    using tracker_run_pcHitCounts[OF assms(1,2), of f pc] of_nat_word64_nonzero[OF assms(4)]
    by simp
qed


text \<open>
  Claim C3. For an enabled tracker and an outcome whose signal has no repeated element
  (it is the key set of a map): when the signal is not empty, the coverage dimension is
  \<open>min (ln (1 + newRatio * e) / ln (1 + e)) 1\<close>, where \<open>newRatio\<close> is the number of the
  elements of the signal whose hit count was 0 at the start of the call, divided by the size
  of the signal; an empty signal gives 0; the call adds one to \<^verbatim>\<open>pcHitCounts\<close> at every
  element of the signal and changes no other hit count. Hence, on a tracker reached from a new
  one by fewer than \<open>2 ^ 64\<close> enabled calls, the hit count of an element is the number of the
  outcomes that contained it (the counter is an \<^verbatim>\<open>int64\<close>), and an element that an earlier
  call folded in has a hit count other than 0: no later call classifies it as new.
\<close>

theorem UpdateScore_coverage:
  "(Enabled (config st) \<and> distinct (Signal r) \<longrightarrow>
      (Signal r \<noteq> [] \<longrightarrow>
         Coverage (fst (UpdateScore sigString st h r now)) =
           min (ln (1 + new_ratio st r * exp 1) / ln (1 + exp 1)) 1) \<and>
      (Signal r = [] \<longrightarrow> Coverage (fst (UpdateScore sigString st h r now)) = 0) \<and>
      pcHitCounts (snd (UpdateScore sigString st h r now)) pc =
        (if pc \<in> set (Signal r) then pcHitCounts st pc + 1 else pcHitCounts st pc)) \<and>
   (Enabled (config (NewScoreTracker cfg)) \<and>
    (\<forall>c \<in> set calls. distinct (Signal (fst (snd c)))) \<and> length calls < 2 ^ 64 \<longrightarrow>
      pcHitCounts (tracker_run sigString cfg calls) pc = of_nat (outcomes_containing pc calls) \<and>
      (0 < outcomes_containing pc calls \<longrightarrow>
         pcHitCounts (tracker_run sigString cfg calls) pc \<noteq> 0 \<and>
         pc \<notin> set (new_elements (tracker_run sigString cfg calls) r)))"
proof (intro conjI impI)
  assume a: "Enabled (config st) \<and> distinct (Signal r)"
  show "Coverage (fst (UpdateScore sigString st h r now)) =
          min (ln (1 + new_ratio st r * exp 1) / ln (1 + exp 1)) 1" if "Signal r \<noteq> []"
    using a that by (simp add: UpdateScore_enabled_Coverage calculateCoverageScore_eq)
  show "Coverage (fst (UpdateScore sigString st h r now)) = 0" if "Signal r = []"
    using a that by (simp add: UpdateScore_enabled_Coverage calculateCoverageScore_eq)
  show "pcHitCounts (snd (UpdateScore sigString st h r now)) pc =
          (if pc \<in> set (Signal r) then pcHitCounts st pc + 1 else pcHitCounts st pc)"
    using a by (simp add: UpdateScore_step_pcHitCounts)
next
  assume b: "Enabled (config (NewScoreTracker cfg)) \<and>
    (\<forall>c \<in> set calls. distinct (Signal (fst (snd c)))) \<and> length calls < 2 ^ 64"
  show "pcHitCounts (tracker_run sigString cfg calls) pc = of_nat (outcomes_containing pc calls)"
    using b tracker_run_pcHitCounts by blast
  assume c: "0 < outcomes_containing pc calls"
  show n: "pcHitCounts (tracker_run sigString cfg calls) pc \<noteq> 0"
    using b c tracker_run_seen_nonzero by blast
  show "pc \<notin> set (new_elements (tracker_run sigString cfg calls) r)"
    using n by (simp add: new_elements_def)
qed


theorem UpdateScore_coverage_witness:
  "Enabled (config (tracker_run wit_sigString None [(''p1'', wit_result [1, 2], 1)])) \<and>
   pcHitCounts (tracker_run wit_sigString None [(''p1'', wit_result [1, 2], 1)]) 2 = 1 \<and>
   2 \<notin> set (new_elements (tracker_run wit_sigString None [(''p1'', wit_result [1, 2], 1)])
               (wit_result [2, 3])) \<and>
   Coverage (fst (UpdateScore wit_sigString
                    (tracker_run wit_sigString None [(''p1'', wit_result [1, 2], 1)])
                    ''p2'' (wit_result [2, 3]) 2))
     = min (ln (1 + 1 / 2 * exp 1) / ln (1 + exp 1)) 1"
proof -
  let ?f = "wit_sigString"
  let ?calls = "[(''p1'', wit_result [1, 2], 1::int)]"
  let ?st = "tracker_run ?f None ?calls"
  have e0: "Enabled (config (NewScoreTracker None))"
    by (simp add: NewScoreTracker_def DefaultScoreConfig_def)
  have e: "Enabled (config ?st)"
    using e0 by (simp add: tracker_run_def tracker_step_def UpdateScore_config)
  have d: "\<forall>c \<in> set ?calls. distinct (Signal (fst (snd c)))"
    by (simp add: wit_result_def)
  have l: "length ?calls < 2 ^ 64" by simp
  have o2: "outcomes_containing 2 ?calls = 1" and o3: "outcomes_containing 3 ?calls = 0"
    by (simp_all add: outcomes_containing_def wit_result_def)
  have h2: "pcHitCounts ?st 2 = 1" and n2: "2 \<notin> set (new_elements ?st (wit_result [2, 3]))"
    using UpdateScore_coverage[of ?st "wit_result [2, 3]" ?f "''p2''" 2 2 None ?calls] e0 d l o2
    by simp_all
  have h3: "pcHitCounts ?st 3 = 0"
    using UpdateScore_coverage[of ?st "wit_result [2, 3]" ?f "''p2''" 2 3 None ?calls] e0 d l o3
    by simp
  have r: "new_ratio ?st (wit_result [2, 3]) = 1 / 2"
    using h2 h3 by (simp add: new_ratio_def new_elements_def wit_result_def)
  have "Coverage (fst (UpdateScore ?f ?st ''p2'' (wit_result [2, 3]) 2)) =
          min (ln (1 + new_ratio ?st (wit_result [2, 3]) * exp 1) / ln (1 + exp 1)) 1"
    using UpdateScore_coverage[of ?st "wit_result [2, 3]" ?f "''p2''" 2 2 None ?calls] e
    by (simp add: wit_result_def)
  then show ?thesis using e h2 n2 r by simp
qed


subsection \<open>The rarity dimension\<close>

lemma calculateRarityScore_cong:
  "pathFrequency st1 = pathFrequency st \<Longrightarrow>
   calculateRarityScore f st1 r = calculateRarityScore f st r"
  by (simp add: calculateRarityScore_def)

lemma UpdateScore_enabled_Rarity:
  "Enabled (config st) \<Longrightarrow>
   Rarity (fst (UpdateScore f st h r now)) = calculateRarityScore f st r"
  using calculateRarityScore_cong[OF calculateCoverageScore_pathFrequency, of f st r r]
  by (simp add: UpdateScore_def Let_def split_beta)

lemma calculateRarityScore_eq:
  "Signal r \<noteq> [] \<Longrightarrow> calculateRarityScore f st r = rarity_of (pathFrequency st (f (Signal r)))"
  by (simp add: calculateRarityScore_def rarity_of_def Let_def)

lemma signed_real_mono:
  "sint k1 < sint k2 \<Longrightarrow> (signed k1 :: real) < signed k2"
  "sint k1 \<le> sint k2 \<Longrightarrow> (signed k1 :: real) \<le> signed k2"
proof -
  have e: "(signed k1 :: real) = real_of_int (sint k1)" "(signed k2 :: real) = real_of_int (sint k2)"
    by simp_all
  show "sint k1 < sint k2 \<Longrightarrow> (signed k1 :: real) < signed k2"
    unfolding e by (simp only: of_int_less_iff)
  show "sint k1 \<le> sint k2 \<Longrightarrow> (signed k1 :: real) \<le> signed k2"
    unfolding e by (simp only: of_int_le_iff)
qed

lemma signed_real_ge:
  "1 \<le> sint k \<Longrightarrow> (1::real) \<le> signed k"
  "2 \<le> sint k \<Longrightarrow> (1::real) < signed k"
proof -
  have e: "(signed k :: real) = real_of_int (sint k)" by simp
  show "1 \<le> sint k \<Longrightarrow> (1::real) \<le> signed k"
    unfolding e by linarith
  show "2 \<le> sint k \<Longrightarrow> (1::real) < signed k"
    unfolding e by linarith
qed

lemma rarity_of_pos:
  assumes "1 \<le> sint k"
  shows "rarity_of k = 1 / (1 + ln (signed k))"
proof -
  have "k \<noteq> 0" using assms by auto
  moreover have "0 \<le> ln (signed k :: real)" using signed_real_ge(1)[OF assms] by simp
  then have "1 / (1 + ln (signed k :: real)) \<le> 1" by (simp add: divide_le_eq_1)
  ultimately show ?thesis by (simp add: rarity_of_def)
qed

lemma rarity_of_strict:
  assumes "0 \<le> sint k1" "sint k1 < sint k2" "2 \<le> sint k2"
  shows "rarity_of k2 < rarity_of k1"
proof -
  have r2: "rarity_of k2 = 1 / (1 + ln (signed k2))"
    using assms by (intro rarity_of_pos) simp
  have p2: "0 < ln (signed k2 :: real)" using signed_real_ge(2)[OF assms(3)] by simp
  show ?thesis
  proof (cases "sint k1 = 0")
    case True
    then have "sint k1 = sint (0 :: 64 word)" by simp
    then have "k1 = 0" by (rule signed_word_eqI)
    then have "rarity_of k1 = 1" by (simp add: rarity_of_def)
    moreover have "1 / (1 + ln (signed k2 :: real)) < 1" using p2 by (simp add: divide_less_eq_1)
    ultimately show ?thesis using r2 by simp
  next
    case False
    then have k1: "1 \<le> sint k1" using assms(1) by simp
    have r1: "rarity_of k1 = 1 / (1 + ln (signed k1))"
      using k1 by (rule rarity_of_pos)
    have "ln (signed k1 :: real) < ln (signed k2)"
      using signed_real_ge(1)[OF k1] signed_real_mono(1)[OF assms(2)] by simp
    moreover have "0 \<le> ln (signed k1 :: real)" using signed_real_ge(1)[OF k1] by simp
    ultimately have "1 / (1 + ln (signed k2 :: real)) < 1 / (1 + ln (signed k1))"
      by (intro divide_strict_left_mono) (simp_all add: add_pos_nonneg)
    then show ?thesis using r1 r2 by simp
  qed
qed

lemma rarity_of_0_1: "rarity_of 0 = 1" "rarity_of 1 = 1"
  by (simp_all add: rarity_of_def)


lemma updateStatistics_pathFrequency:
  "pathFrequency (updateStatistics f st r) =
     (if Signal r \<noteq> [] then (pathFrequency st)(f (Signal r) := pathFrequency st (f (Signal r)) + 1)
      else pathFrequency st)"
  by (simp add: updateStatistics_def Let_def)

lemma UpdateScore_enabled_pathFrequency:
  assumes "Enabled (config st)"
  shows "pathFrequency (snd (UpdateScore f st h r now)) =
     (if Signal r \<noteq> [] then (pathFrequency st)(f (Signal r) := pathFrequency st (f (Signal r)) + 1)
      else pathFrequency st)"
proof -
  let ?st1 = "snd (calculateCoverageScore st r)"
  have "pathFrequency (snd (calculateTimeAnomalyScore ?st1 r)) = pathFrequency st"
    by (simp add: calculateTimeAnomalyScore_frame calculateCoverageScore_pathFrequency)
  then show ?thesis using assms
    by (simp add: UpdateScore_def Let_def split_beta updateStatistics_pathFrequency)
qed

lemma rarity_state_one:
  "Enabled (config (tracker_run wit_sigString None [(''p'', wit_result [2], 1)])) \<and>
   pathFrequency (tracker_run wit_sigString None [(''p'', wit_result [2], 1)]) ''[1]'' = 0 \<and>
   pathFrequency (tracker_run wit_sigString None [(''p'', wit_result [2], 1)]) ''[2]'' = 1"
proof -
  have e0: "Enabled (config (NewScoreTracker None))"
    by (simp add: NewScoreTracker_def DefaultScoreConfig_def)
  have p0: "pathFrequency (NewScoreTracker None) = (\<lambda>k. 0)"
    by (simp add: NewScoreTracker_def)
  show ?thesis
    using e0
    by (simp add: tracker_run_def tracker_step_def UpdateScore_config
        UpdateScore_enabled_pathFrequency p0 wit_result_def wit_sigString_def)
qed

lemma rarity_state_two:
  "Enabled (config (tracker_run wit_sigString None
                      [(''p'', wit_result [2], 1), (''p'', wit_result [2], 2)])) \<and>
   pathFrequency (tracker_run wit_sigString None
                      [(''p'', wit_result [2], 1), (''p'', wit_result [2], 2)]) ''[1]'' = 0 \<and>
   pathFrequency (tracker_run wit_sigString None
                      [(''p'', wit_result [2], 1), (''p'', wit_result [2], 2)]) ''[2]'' = 2"
proof -
  have e0: "Enabled (config (NewScoreTracker None))"
    by (simp add: NewScoreTracker_def DefaultScoreConfig_def)
  have p0: "pathFrequency (NewScoreTracker None) = (\<lambda>k. 0)"
    by (simp add: NewScoreTracker_def)
  show ?thesis
    using e0
    by (simp add: tracker_run_def tracker_step_def UpdateScore_config
        UpdateScore_enabled_pathFrequency p0 wit_result_def wit_sigString_def)
qed

text \<open>
  Claim C4, as stated, says that of two outcomes scored against the same tracker state whose
  signatures were seen \<open>f1 < f2\<close> times, the first has the strictly higher rarity. After one
  call with the signal \<open>[2]\<close>, the signature of \<open>[1]\<close> was seen 0 times and that of \<open>[2]\<close>
  once, and both outcomes have the rarity 1: \<open>1 / (1 + ln 1) = 1\<close>.
\<close>

theorem UpdateScore_rarity_counterexample:
  "sint (pathFrequency (tracker_run wit_sigString None [(''p'', wit_result [2], 1)])
           (wit_sigString (Signal (wit_result [1]))))
     < sint (pathFrequency (tracker_run wit_sigString None [(''p'', wit_result [2], 1)])
           (wit_sigString (Signal (wit_result [2])))) \<and>
   \<not> (Rarity (fst (UpdateScore wit_sigString
                    (tracker_run wit_sigString None [(''p'', wit_result [2], 1)])
                    ''q'' (wit_result [2]) 2))
       < Rarity (fst (UpdateScore wit_sigString
                    (tracker_run wit_sigString None [(''p'', wit_result [2], 1)])
                    ''q'' (wit_result [1]) 2)))"
proof -
  let ?st = "tracker_run wit_sigString None [(''p'', wit_result [2], 1)]"
  have k: "wit_sigString (Signal (wit_result [1])) = ''[1]''"
    "wit_sigString (Signal (wit_result [2])) = ''[2]''"
    by (simp_all add: wit_sigString_def wit_result_def)
  have n: "Signal (wit_result [1]) \<noteq> []" "Signal (wit_result [2]) \<noteq> []"
    by (simp_all add: wit_result_def)
  have r1: "Rarity (fst (UpdateScore wit_sigString ?st ''q'' (wit_result [1]) 2)) = rarity_of 0"
    using rarity_state_one
    by (simp add: UpdateScore_enabled_Rarity calculateRarityScore_eq[OF n(1)] k)
  have r2: "Rarity (fst (UpdateScore wit_sigString ?st ''q'' (wit_result [2]) 2)) = rarity_of 1"
    using rarity_state_one
    by (simp add: UpdateScore_enabled_Rarity calculateRarityScore_eq[OF n(2)] k)
  show ?thesis
    unfolding r1 r2 k using rarity_state_one by (simp add: rarity_of_0_1)
qed

text \<open>
  Claim C4, amended. For an enabled tracker and a non-empty signal, the rarity dimension is 1
  if the signature of the signal has the recorded frequency 0, and otherwise
  \<open>1 / (1 + ln frequency)\<close> clamped to 1. Consequently, of two outcomes scored against the
  same tracker state whose signatures were seen \<open>f1\<close> and \<open>f2\<close> times, with \<open>0 \<le> f1 < f2\<close>
  and \<open>2 \<le> f2\<close>, the first has the strictly higher rarity.
\<close>

theorem UpdateScore_rarity:
  "Enabled (config st) \<and> Signal r1 \<noteq> [] \<and> Signal r2 \<noteq> [] \<longrightarrow>
     Rarity (fst (UpdateScore sigString st h1 r1 now1)) =
       rarity_of (pathFrequency st (sigString (Signal r1))) \<and>
     (0 \<le> sint (pathFrequency st (sigString (Signal r1))) \<and>
      sint (pathFrequency st (sigString (Signal r1))) < sint (pathFrequency st (sigString (Signal r2))) \<and>
      2 \<le> sint (pathFrequency st (sigString (Signal r2))) \<longrightarrow>
        Rarity (fst (UpdateScore sigString st h2 r2 now2))
          < Rarity (fst (UpdateScore sigString st h1 r1 now1)))"
proof (intro impI, elim conjE)
  assume e: "Enabled (config st)" and n1: "Signal r1 \<noteq> []" and n2: "Signal r2 \<noteq> []"
  have a1: "Rarity (fst (UpdateScore sigString st h1 r1 now1)) =
              rarity_of (pathFrequency st (sigString (Signal r1)))"
    using e by (simp add: UpdateScore_enabled_Rarity calculateRarityScore_eq[OF n1])
  have a2: "Rarity (fst (UpdateScore sigString st h2 r2 now2)) =
              rarity_of (pathFrequency st (sigString (Signal r2)))"
    using e by (simp add: UpdateScore_enabled_Rarity calculateRarityScore_eq[OF n2])
  show "Rarity (fst (UpdateScore sigString st h1 r1 now1)) =
       rarity_of (pathFrequency st (sigString (Signal r1))) \<and>
     (0 \<le> sint (pathFrequency st (sigString (Signal r1))) \<and>
      sint (pathFrequency st (sigString (Signal r1))) < sint (pathFrequency st (sigString (Signal r2))) \<and>
      2 \<le> sint (pathFrequency st (sigString (Signal r2))) \<longrightarrow>
        Rarity (fst (UpdateScore sigString st h2 r2 now2))
          < Rarity (fst (UpdateScore sigString st h1 r1 now1)))"
    unfolding a1 a2 using rarity_of_strict by auto
qed

theorem UpdateScore_rarity_witness:
  "Rarity (fst (UpdateScore wit_sigString
             (tracker_run wit_sigString None [(''p'', wit_result [2], 1), (''p'', wit_result [2], 2)])
             ''q'' (wit_result [1]) 3)) = rarity_of 0 \<and>
   Rarity (fst (UpdateScore wit_sigString
             (tracker_run wit_sigString None [(''p'', wit_result [2], 1), (''p'', wit_result [2], 2)])
             ''q'' (wit_result [2]) 3))
     < Rarity (fst (UpdateScore wit_sigString
             (tracker_run wit_sigString None [(''p'', wit_result [2], 1), (''p'', wit_result [2], 2)])
             ''q'' (wit_result [1]) 3))"
proof -
  let ?st2 = "tracker_run wit_sigString None [(''p'', wit_result [2], 1), (''p'', wit_result [2], 2)]"
  have k: "wit_sigString (Signal (wit_result [1])) = ''[1]''"
    "wit_sigString (Signal (wit_result [2])) = ''[2]''"
    by (simp_all add: wit_sigString_def wit_result_def)
  have n: "Signal (wit_result [1]) \<noteq> []" "Signal (wit_result [2]) \<noteq> []"
    by (simp_all add: wit_result_def)
  show ?thesis
    using UpdateScore_rarity[of ?st2 "wit_result [1]" "wit_result [2]" wit_sigString "''q''" 3 "''q''" 3]
      rarity_state_two n
    by (simp add: k)
qed


subsection \<open>GetTopScoredProgs\<close>

lemma set_drop_nth:
  "set (drop i xs) = {xs ! c | c. i \<le> c \<and> c < length xs}"
proof -
  have "set (drop i xs) = {drop i xs ! k | k. k < length (drop i xs)}"
    by (simp add: set_conv_nth)
  also have "\<dots> = {xs ! c | c. i \<le> c \<and> c < length xs}"
  proof (intro set_eqI iffI)
    fix x assume "x \<in> {drop i xs ! k | k. k < length (drop i xs)}"
    then obtain k where "k < length xs - i" "x = xs ! (i + k)" by auto
    then show "x \<in> {xs ! c | c. i \<le> c \<and> c < length xs}"
      by (intro CollectI exI[of _ "i + k"]) simp
  next
    fix x assume "x \<in> {xs ! c | c. i \<le> c \<and> c < length xs}"
    then obtain c where "i \<le> c" "c < length xs" "x = xs ! c" by auto
    then show "x \<in> {drop i xs ! k | k. k < length (drop i xs)}"
      by (intro CollectI exI[of _ "c - i"]) simp
  qed
  finally show ?thesis .
qed

lemma pass_inv_refl: "pass_inv i xs xs"
  by (simp add: pass_inv_def)

lemma swap_drop:
  assumes "i < j" "j < length xs"
  shows "drop i (xs[i := xs ! j, j := xs ! i]) =
           (drop i xs)[0 := drop i xs ! (j - i), j - i := drop i xs ! 0]"
  using assms by (simp add: drop_update_swap)

lemma pass_inv_swap:
  assumes "i < j" "j < length xs"
  shows "pass_inv i xs (swap_if_less i xs j)"
proof (cases "snd (xs ! i) < snd (xs ! j)")
  case False
  then show ?thesis by (simp add: swap_if_less_def pass_inv_def)
next
  case True
  let ?ys = "xs[i := xs ! j, j := xs ! i]"
  have e: "swap_if_less i xs j = ?ys" using True by (simp add: swap_if_less_def)
  have il: "i < length xs" using assms by simp
  have t: "take i ?ys = take i xs" using assms by simp
  have "set (drop i ?ys) = set ((drop i xs)[0 := drop i xs ! (j - i), j - i := drop i xs ! 0])"
    by (simp only: swap_drop[OF assms])
  also have "\<dots> = set (drop i xs)"
    using assms by (intro set_swap) simp_all
  finally have s: "set (drop i ?ys) = set (drop i xs)" .
  have d: "distinct ?ys = distinct xs" using il assms(2) by (rule distinct_swap)
  show ?thesis unfolding e pass_inv_def using t s d by simp
qed

lemma pass_inv_trans: "pass_inv i xs ys \<Longrightarrow> pass_inv i ys zs \<Longrightarrow> pass_inv i xs zs"
  by (simp add: pass_inv_def)

lemma inner_loop:
  assumes "i < length xs" "J \<le> length xs"
  shows "pass_inv i xs (foldl (swap_if_less i) xs [i + 1..<J]) \<and>
         (\<forall>j. i < j \<and> j < J \<longrightarrow>
            snd (foldl (swap_if_less i) xs [i + 1..<J] ! j)
              \<le> snd (foldl (swap_if_less i) xs [i + 1..<J] ! i))"
  using assms(2)
proof (induction J)
  case 0
  then show ?case by (simp add: pass_inv_refl)
next
  case (Suc J)
  show ?case
  proof (cases "i + 1 \<le> J")
    case False
    then have "[i + 1..<Suc J] = []" by simp
    then show ?thesis using False by (auto simp: pass_inv_refl)
  next
    case True
    let ?ys = "foldl (swap_if_less i) xs [i + 1..<J]"
    let ?zs = "swap_if_less i ?ys J"
    have f: "foldl (swap_if_less i) xs [i + 1..<Suc J] = ?zs" using True by simp
    have ih: "pass_inv i xs ?ys" "\<And>j. i < j \<Longrightarrow> j < J \<Longrightarrow> snd (?ys ! j) \<le> snd (?ys ! i)"
      using Suc by simp_all
    have ly: "length ?ys = length xs" using ih(1) by (simp add: pass_inv_def)
    have iJ: "i < J" "J < length ?ys" using True Suc.prems ly by simp_all
    have p: "pass_inv i xs ?zs"
      using pass_inv_trans[OF ih(1) pass_inv_swap[OF iJ]] .
    have q: "snd (?zs ! j) \<le> snd (?zs ! i)" if "i < j" "j < Suc J" for j
    proof (cases "snd (?ys ! i) < snd (?ys ! J)")
      case False
      then have z: "?zs = ?ys" by (simp add: swap_if_less_def)
      show ?thesis
      proof (cases "j = J")
        case True
        then show ?thesis using False z by simp
      next
        case False
        then show ?thesis using ih(2)[of j] that z by simp
      qed
    next
      case sw: True
      then have z: "?zs = ?ys[i := ?ys ! J, J := ?ys ! i]" by (simp add: swap_if_less_def)
      have zi: "?zs ! i = ?ys ! J" unfolding z using iJ by simp
      show ?thesis
      proof (cases "j = J")
        case True
        then have "?zs ! j = ?ys ! i" unfolding z using iJ by simp
        then show ?thesis using zi sw by simp
      next
        case False
        then have "?zs ! j = ?ys ! j" unfolding z using that iJ by simp
        moreover have "snd (?ys ! j) \<le> snd (?ys ! i)" using ih(2)[of j] that False by simp
        ultimately show ?thesis using zi sw by simp
      qed
    qed
    show ?thesis unfolding f using p q by blast
  qed
qed

lemma sort_pass_spec:
  assumes "i < length xs"
  shows "pass_inv i xs (sort_pass xs i)"
    and "\<And>j. i < j \<Longrightarrow> j < length xs \<Longrightarrow> snd (sort_pass xs i ! j) \<le> snd (sort_pass xs i ! i)"
  using inner_loop[OF assms, of "length xs"] by (simp_all add: sort_pass_def)

lemma outer_step:
  assumes i: "i < length xs" and s: "sorted_upto i xs"
  shows "sorted_upto (Suc i) (sort_pass xs i)"
  unfolding sorted_upto_def
proof (intro allI impI)
  fix a b
  let ?ys = "sort_pass xs i"
  assume h: "a < Suc i \<and> a < b \<and> b < length ?ys"
  have p: "pass_inv i xs ?ys" by (rule sort_pass_spec(1)[OF i])
  have l: "length ?ys = length xs" using p by (simp add: pass_inv_def)
  have pre: "?ys ! c = xs ! c" if "c < i" for c
  proof -
    have "take i ?ys ! c = take i xs ! c" using p by (simp add: pass_inv_def)
    then show ?thesis using that by simp
  qed
  show "snd (?ys ! b) \<le> snd (?ys ! a)"
  proof (cases "a = i")
    case True
    then show ?thesis using sort_pass_spec(2)[OF i, of b] h l by simp
  next
    case False
    then have ai: "a < i" using h by simp
    show ?thesis
    proof (cases "b < i")
      case True
      then show ?thesis using s ai h l pre[of a] pre[of b] by (simp add: sorted_upto_def)
    next
      case False
      then have "?ys ! b \<in> set (drop i ?ys)"
        using h unfolding set_drop_nth by auto
      then have "?ys ! b \<in> set (drop i xs)" using p by (simp add: pass_inv_def)
      then obtain c where c: "i \<le> c" "c < length xs" "xs ! c = ?ys ! b"
        unfolding set_drop_nth by auto
      have "a < i \<and> a < c \<and> c < length xs" using ai c(1,2) by simp
      then have "snd (xs ! c) \<le> snd (xs ! a)" using s unfolding sorted_upto_def by blast
      then show ?thesis using c(3) pre[OF ai] by simp
    qed
  qed
qed


lemma pass_inv_set:
  assumes "pass_inv i xs ys"
  shows "set ys = set xs"
proof -
  have "set ys = set (take i ys) \<union> set (drop i ys)" by (metis append_take_drop_id set_append)
  also have "\<dots> = set (take i xs) \<union> set (drop i xs)" using assms by (simp add: pass_inv_def)
  also have "\<dots> = set xs" by (metis append_take_drop_id set_append)
  finally show ?thesis .
qed

lemma outer_loop:
  assumes "I \<le> length xs"
  shows "length (foldl sort_pass xs [0..<I]) = length xs \<and>
         set (foldl sort_pass xs [0..<I]) = set xs \<and>
         distinct (foldl sort_pass xs [0..<I]) = distinct xs \<and>
         sorted_upto I (foldl sort_pass xs [0..<I])"
  using assms
proof (induction I)
  case 0
  then show ?case by (simp add: sorted_upto_def)
next
  case (Suc I)
  let ?ys = "foldl sort_pass xs [0..<I]"
  have ih: "length ?ys = length xs" "set ?ys = set xs" "distinct ?ys = distinct xs" "sorted_upto I ?ys"
    using Suc by simp_all
  have i: "I < length ?ys" using Suc.prems ih(1) by simp
  have p: "pass_inv I ?ys (sort_pass ?ys I)" by (rule sort_pass_spec(1)[OF i])
  have "length (sort_pass ?ys I) = length xs" "distinct (sort_pass ?ys I) = distinct xs"
    using p ih(1,3) by (simp_all add: pass_inv_def)
  moreover have "set (sort_pass ?ys I) = set xs" using pass_inv_set[OF p] ih(2) by simp
  moreover have "sorted_upto (Suc I) (sort_pass ?ys I)" by (rule outer_step[OF i ih(4)])
  ultimately show ?case by simp
qed

lemma sort_desc_spec:
  "length (sort_desc xs) = length xs"
  "set (sort_desc xs) = set xs"
  "distinct (sort_desc xs) = distinct xs"
  "sorted_wrt (\<lambda>p q. snd q \<le> snd p) (sort_desc xs)"
proof -
  have o: "length (sort_desc xs) = length xs \<and> set (sort_desc xs) = set xs \<and>
         distinct (sort_desc xs) = distinct xs \<and> sorted_upto (length xs - 1) (sort_desc xs)"
    unfolding sort_desc_def by (rule outer_loop) simp
  show "length (sort_desc xs) = length xs" "set (sort_desc xs) = set xs"
    "distinct (sort_desc xs) = distinct xs"
    using o by simp_all
  have "snd (sort_desc xs ! b) \<le> snd (sort_desc xs ! a)" if "a < b" "b < length (sort_desc xs)" for a b
  proof -
    have "a < length xs - 1 \<and> a < b \<and> b < length (sort_desc xs)" using that o by simp
    then show ?thesis using o unfolding sorted_upto_def by blast
  qed
  then show "sorted_wrt (\<lambda>p q. snd q \<le> snd p) (sort_desc xs)"
    by (simp add: sorted_wrt_iff_nth_less)
qed

lemma range_pairs_map:
  assumes "range_order m order"
  shows "range_pairs m order = map (\<lambda>k. (k, the (m k))) order"
proof -
  have n: "\<forall>k \<in> set order. m k \<noteq> None" using assms by (auto simp: range_order_def)
  then have "filter (\<lambda>k. map_option (Pair k) (m k) \<noteq> None) order = order"
    by (simp add: filter_id_conv)
  moreover have "map (the \<circ> (\<lambda>k. map_option (Pair k) (m k))) order = map (\<lambda>k. (k, the (m k))) order"
    using n by (intro map_cong) auto
  ultimately show ?thesis by (simp add: range_pairs_def map_filter_def)
qed

text \<open>
  For a limit that is not negative, \<^verbatim>\<open>GetTopScoredProgs\<close> returns the first \<^verbatim>\<open>limit\<close>
  hashes of a ranking of all cached scores by descending total score, each hash once; all
  of them when \<^verbatim>\<open>limit\<close> is at least their number.
\<close>

lemma GetTopScoredProgs_nonneg:
  assumes ro: "range_order (scores st) order" and l: "0 \<le> limit"
  shows "\<exists>ranked. GetTopScoredProgs order st limit = Inr (map fst (take (nat limit) ranked)) \<and>
           sorted_wrt (\<lambda>p q. snd q \<le> snd p) ranked \<and>
           distinct (map fst ranked) \<and>
           set ranked = {(h, Total s) | h s. scores st h = Some s} \<and>
           length ranked = card (dom (scores st))"
proof -
  let ?progs = "map (\<lambda>(hash, score). (hash, Total score)) (range_pairs (scores st) order)"
  let ?ranked = "sort_desc ?progs"
  have pe: "?progs = map (\<lambda>k. (k, Total (the (scores st k)))) order"
    by (simp add: range_pairs_map[OF ro] comp_def)
  have d: "distinct order" and so: "set order = dom (scores st)"
    using ro by (simp_all add: range_order_def)
  have fp: "map fst ?progs = order" unfolding pe by (simp add: comp_def)
  have sp: "set ?progs = {(h, Total s) | h s. scores st h = Some s}"
    unfolding pe using so by (auto simp: image_iff)
  have g: "GetTopScoredProgs order st limit = Inr (map fst (take (nat limit) ?ranked))"
    using l by (simp add: GetTopScoredProgs_def Let_def)
  have lp: "length ?progs = length order" by (simp only: pe length_map)
  have lr: "length ?ranked = length order" using sort_desc_spec(1)[of ?progs] lp by simp
  have len: "length ?ranked = card (dom (scores st))"
    using lr distinct_card[OF d] so by simp
  have "fst ` set ?ranked = fst ` set ?progs" by (simp only: sort_desc_spec(2))
  also have "\<dots> = set (map fst ?progs)" by (simp only: set_map)
  also have "\<dots> = set order" by (simp only: fp)
  finally have fr: "set (map fst ?ranked) = set order" by (simp only: set_map)
  have "card (set (map fst ?ranked)) = length (map fst ?ranked)"
    unfolding fr using distinct_card[OF d] lr by simp
  then have dr: "distinct (map fst ?ranked)" by (rule card_distinct)
  have sr: "set ?ranked = {(h, Total s) | h s. scores st h = Some s}"
    using sort_desc_spec(2)[of ?progs] sp by (simp only:)
  show ?thesis
  proof (intro exI[of _ ?ranked] conjI)
    show "GetTopScoredProgs order st limit = Inr (map fst (take (nat limit) ?ranked))" by (rule g)
    show "sorted_wrt (\<lambda>p q. snd q \<le> snd p) ?ranked" by (rule sort_desc_spec(4))
    show "distinct (map fst ?ranked)" by (rule dr)
    show "set ?ranked = {(h, Total s) | h s. scores st h = Some s}" by (rule sr)
    show "length ?ranked = card (dom (scores st))" by (rule len)
  qed
qed


lemma GetTopScoredProgs_negative:
  "limit < 0 \<Longrightarrow> GetTopScoredProgs order st limit = Inl MakesliceCapOutOfRange"
  by (simp add: GetTopScoredProgs_def Let_def)

text \<open>
  Claim C9. The claim: \<^verbatim>\<open>GetTopScoredProgs\<close> is total; for every integer \<^verbatim>\<open>limit\<close>,
  negative ones included, it completes without a fatal error and returns the cached
  identities by descending total score, cut to at most \<^verbatim>\<open>limit\<close> entries.

  The code does not complete for a negative limit: \<^verbatim>\<open>GetTopScoredProgs(-1)\<close> on a new
  tracker reaches \<^verbatim>\<open>make([]string, 0, -1)\<close>, which panics. The loop after it would have
  coped with a negative limit (\<^verbatim>\<open>i < limit\<close> fails at once); the allocation before it
  does not.
\<close>

theorem GetTopScoredProgs_panics:
  "GetTopScoredProgs [] (NewScoreTracker None) (- 1) = Inl MakesliceCapOutOfRange"
  by (simp add: GetTopScoredProgs_def Let_def)


section \<open>Properties of ScoreMetrics\<close>

lemma running_avg_None: "running_avg avg 0 x = None"
  by (simp add: running_avg_def float_div_def)

lemma running_avg_Some: "cnt \<noteq> 0 \<Longrightarrow> running_avg avg cnt x = Some ((avg * (cnt - 1) + x) / cnt)"
  by (simp add: running_avg_def float_div_def)

lemma signed_real_eq_0: "(signed (w :: 64 word) :: real) = 0 \<longleftrightarrow> w = 0"
  by (simp add: signed_eq_0_iff)

lemma UpdateDimensionScores_zero:
  "TotalRequests sm = 0 \<Longrightarrow> UpdateDimensionScores sm c r k t = None"
  by (simp add: UpdateDimensionScores_def running_avg_None)

lemma UpdateDimensionScores_nonzero:
  assumes "TotalRequests sm \<noteq> 0"
  shows "UpdateDimensionScores sm c r k t =
     Some (if TotalRequests sm = 1
           then sm\<lparr>AvgCoverageScore := c, AvgRarityScore := r,
                   AvgKernelLogScore := k, AvgTimeAnomalyScore := t\<rparr>
           else sm\<lparr>AvgCoverageScore :=
                     (AvgCoverageScore sm * (signed (TotalRequests sm) - 1) + c) / signed (TotalRequests sm),
                   AvgRarityScore :=
                     (AvgRarityScore sm * (signed (TotalRequests sm) - 1) + r) / signed (TotalRequests sm),
                   AvgKernelLogScore :=
                     (AvgKernelLogScore sm * (signed (TotalRequests sm) - 1) + k) / signed (TotalRequests sm),
                   AvgTimeAnomalyScore :=
                     (AvgTimeAnomalyScore sm * (signed (TotalRequests sm) - 1) + t) / signed (TotalRequests sm)\<rparr>)"
proof -
  have "(signed (TotalRequests sm) :: real) \<noteq> 0" using assms by (simp add: signed_real_eq_0)
  then show ?thesis
    by (simp add: UpdateDimensionScores_def running_avg_Some Let_def)
qed

lemma UpdateMetrics_TotalRequests:
  "UpdateMetrics sm score sel ct now = Some sm' \<Longrightarrow> TotalRequests sm' = TotalRequests sm + 1"
  by (auto simp: UpdateMetrics_def Let_def split: if_splits)

lemma UpdateMetrics_first:
  "TotalRequests sm = 0 \<Longrightarrow> \<exists>sm'. UpdateMetrics sm score sel ct now = Some sm' \<and> TotalRequests sm' = 1"
  by (simp add: UpdateMetrics_def Let_def)

text \<open>
  Claim C10. \<^verbatim>\<open>UpdateDimensionScores\<close> divides each running average by the current
  \<^verbatim>\<open>TotalRequests\<close> without a check. With \<^verbatim>\<open>TotalRequests \<ge> 1\<close> the call yields averages
  (the division, if any, is by a non-zero value); with \<^verbatim>\<open>TotalRequests = 0\<close> the
  incremental branch divides by zero and no average is defined. For a counter that is not
  negative, the averages are defined exactly when \<^verbatim>\<open>TotalRequests \<ge> 1\<close>. In particular the
  call fails on new metrics, on which \<^verbatim>\<open>UpdateMetrics\<close> was never called, and succeeds
  after one call of \<^verbatim>\<open>UpdateMetrics\<close>.
\<close>

theorem UpdateDimensionScores_precondition:
  "(1 \<le> sint (TotalRequests sm) \<longrightarrow>
      (\<exists>sm'. UpdateDimensionScores sm c r k t = Some sm')) \<and>
   (TotalRequests sm = 0 \<longrightarrow> UpdateDimensionScores sm c r k t = None) \<and>
   (0 \<le> sint (TotalRequests sm) \<longrightarrow>
      (UpdateDimensionScores sm c r k t \<noteq> None \<longleftrightarrow> 1 \<le> sint (TotalRequests sm))) \<and>
   UpdateDimensionScores (NewScoreMetrics now) c r k t = None \<and>
   (\<exists>sm1 sm2. UpdateMetrics (NewScoreMetrics now) score sel ct now1 = Some sm1 \<and>
      UpdateDimensionScores sm1 c r k t = Some sm2)"
proof (intro conjI impI)
  show "\<exists>sm'. UpdateDimensionScores sm c r k t = Some sm'" if "1 \<le> sint (TotalRequests sm)"
  proof -
    have "TotalRequests sm \<noteq> 0" using that by auto
    then show ?thesis by (simp add: UpdateDimensionScores_nonzero)
  qed
  show "UpdateDimensionScores sm c r k t = None" if "TotalRequests sm = 0"
    using that by (rule UpdateDimensionScores_zero)
  show "(UpdateDimensionScores sm c r k t \<noteq> None) = (1 \<le> sint (TotalRequests sm))"
    if "0 \<le> sint (TotalRequests sm)"
  proof (cases "TotalRequests sm = 0")
    case True
    then show ?thesis by (simp add: UpdateDimensionScores_zero)
  next
    case False
    then have "sint (TotalRequests sm) \<noteq> 0" by (simp add: signed_eq_0_iff)
    then have "1 \<le> sint (TotalRequests sm)" using that by linarith
    then show ?thesis using False by (simp add: UpdateDimensionScores_nonzero)
  qed
  show "UpdateDimensionScores (NewScoreMetrics now) c r k t = None"
    by (simp add: UpdateDimensionScores_zero NewScoreMetrics_def)
  show "\<exists>sm1 sm2. UpdateMetrics (NewScoreMetrics now) score sel ct now1 = Some sm1 \<and>
      UpdateDimensionScores sm1 c r k t = Some sm2"
  proof -
    obtain sm1 where s: "UpdateMetrics (NewScoreMetrics now) score sel ct now1 = Some sm1"
      and t: "TotalRequests sm1 = 1"
      using UpdateMetrics_first[of "NewScoreMetrics now" score sel ct now1]
      by (auto simp: NewScoreMetrics_def)
    have "TotalRequests sm1 \<noteq> 0" using t by simp
    then show ?thesis using s by (simp add: UpdateDimensionScores_nonzero)
  qed
qed

theorem UpdateDimensionScores_precondition_witness:
  "UpdateDimensionScores ((NewScoreMetrics 0)\<lparr>TotalRequests := 2, AvgCoverageScore := 1\<rparr>) 0 0 0 0 \<noteq> None \<and>
   UpdateDimensionScores ((NewScoreMetrics 0)\<lparr>TotalRequests := 0\<rparr>) 1 1 1 1 = None"
  using UpdateDimensionScores_precondition[of "(NewScoreMetrics 0)\<lparr>TotalRequests := 2, AvgCoverageScore := 1\<rparr>" 0 0 0 0]
    UpdateDimensionScores_precondition[of "(NewScoreMetrics 0)\<lparr>TotalRequests := 0\<rparr>" 1 1 1 1]
  by simp


section \<open>Properties of WeightedSelector\<close>

subsection \<open>The rebuilt table\<close>

lemma rebuild_fold:
  "foldl rebuild_step (c, cws, hs) ps =
     (c + sum_list (map snd (filter (\<lambda>entry. snd entry > 0) ps)),
      cws @ prefix_sums c (map snd (filter (\<lambda>entry. snd entry > 0) ps)),
      hs @ map fst (filter (\<lambda>entry. snd entry > 0) ps))"
proof (induction ps arbitrary: c cws hs)
  case Nil
  then show ?case by simp
next
  case (Cons p ps)
  obtain h w where p: "p = (h, w)" by (cases p)
  show ?case
  proof (cases "w > 0")
    case True
    then have "rebuild_step (c, cws, hs) p = (c + w, cws @ [c + w], hs @ [h])"
      by (simp add: rebuild_step_def p)
    then show ?thesis using True Cons.IH[of "c + w" "cws @ [c + w]" "hs @ [h]"]
      by (simp add: p add.assoc)
  next
    case False
    then have "rebuild_step (c, cws, hs) p = (c, cws, hs)"
      by (simp add: rebuild_step_def p)
    then show ?thesis using False Cons.IH[of c cws hs] by (simp add: p)
  qed
qed

lemma rebuildWeightTable_eq:
  "rebuildWeightTable order ws =
     ws\<lparr>cumulativeWeights := prefix_sums 0 (map snd (positive_entries (weights ws) order)),
        progHashes := map fst (positive_entries (weights ws) order),
        needRebuild := False\<rparr>"
  by (simp add: rebuildWeightTable_def rebuild_fold positive_entries_def)

lemma table_of_rebuild: "table_of (weights ws) order (rebuildWeightTable order ws)"
  by (simp add: rebuildWeightTable_eq table_of_def)

lemma length_prefix_sums: "length (prefix_sums c ws) = length ws"
  by (induction ws arbitrary: c) simp_all

lemma prefix_sums_nth:
  "k < length ws \<Longrightarrow> prefix_sums c ws ! k = c + sum_list (take (Suc k) ws)"
proof (induction ws arbitrary: c k)
  case Nil
  then show ?case by simp
next
  case (Cons w ws)
  show ?case
  proof (cases k)
    case 0
    then show ?thesis by simp
  next
    case (Suc j)
    then have "j < length ws" using Cons.prems by simp
    then show ?thesis using Cons.IH[of j "c + w"] Suc by (simp add: add.assoc)
  qed
qed

lemma sum_list_take_mono:
  assumes "\<forall>w \<in> set ws. 0 < (w::real)" "i < j" "j \<le> length ws"
  shows "sum_list (take i ws) < sum_list (take j ws)"
proof -
  have t: "take j ws = take i ws @ take (j - i) (drop i ws)"
    using assms(2) by (metis le_add_diff_inverse less_imp_le_nat take_add)
  have ne: "take (j - i) (drop i ws) \<noteq> []" using assms(2,3) by simp
  have pos: "\<forall>w \<in> set (take (j - i) (drop i ws)). 0 < w"
    using assms(1) by (meson in_set_dropD in_set_takeD)
  have "0 < sum_list (take (j - i) (drop i ws))"
    using ne pos by (induction "take (j - i) (drop i ws)")
      (simp, metis  list.set_intros(1,2)  sum_list.Cons add_pos_nonneg sum_list_nonneg less_imp_le)
  then show ?thesis unfolding t by simp
qed

lemma prefix_sums_strict:
  assumes "\<forall>w \<in> set ws. 0 < w" "i < j" "j < length ws"
  shows "prefix_sums c ws ! i < prefix_sums c ws ! j"
  using sum_list_take_mono[OF assms(1), of "Suc i" "Suc j"] assms(2,3)
  by (simp add: prefix_sums_nth)

lemma prefix_sums_sorted:
  assumes "\<forall>w \<in> set ws. 0 < w"
  shows "sorted (prefix_sums c ws)"
  unfolding sorted_iff_nth_mono_less
  using prefix_sums_strict[OF assms] by (auto simp: length_prefix_sums intro: less_imp_le)

lemma prefix_sums_last:
  assumes "ws \<noteq> []"
  shows "last (prefix_sums c ws) = c + sum_list ws"
proof -
  have n: "prefix_sums c ws \<noteq> []" using assms by (cases ws) simp_all
  have "last (prefix_sums c ws) = prefix_sums c ws ! (length ws - 1)"
    using last_conv_nth[OF n] by (simp add: length_prefix_sums)
  also have "\<dots> = c + sum_list ws"
    using prefix_sums_nth[of "length ws - 1" ws c] assms by simp
  finally show ?thesis .
qed

lemma prefix_sums_step:
  assumes "k < length ws"
  shows "prefix_sums c ws ! k = (if k = 0 then c else prefix_sums c ws ! (k - 1)) + ws ! k"
proof (cases k)
  case 0
  then show ?thesis using assms by (cases ws) simp_all
next
  case (Suc j)
  have "take (Suc (Suc j)) ws = take (Suc j) ws @ [ws ! Suc j]"
    using assms Suc by (simp add: take_Suc_conv_app_nth)
  then show ?thesis using assms Suc by (simp add: prefix_sums_nth)
qed


lemma positive_entries_eq:
  assumes "range_order m order"
  shows "positive_entries m order =
           map (\<lambda>k. (k, the (m k))) (filter (\<lambda>k. the (m k) > 0) order)"
  by (simp add: positive_entries_def range_pairs_map[OF assms] filter_map comp_def)

lemma positive_entries_fst:
  assumes "range_order m order"
  shows "map fst (positive_entries m order) = filter (\<lambda>k. the (m k) > 0) order"
  by (simp add: positive_entries_eq[OF assms] comp_def)

lemma positive_entries_snd:
  assumes "range_order m order"
  shows "map snd (positive_entries m order) = map (\<lambda>k. the (m k)) (filter (\<lambda>k. the (m k) > 0) order)"
  by (simp add: positive_entries_eq[OF assms] comp_def)

lemma positive_hashes_set:
  assumes "range_order m order"
  shows "set (map fst (positive_entries m order)) = {h \<in> dom m. the (m h) > 0}"
  using assms by (auto simp: positive_entries_fst[OF assms] range_order_def)

lemma positive_hashes_distinct:
  assumes "range_order m order"
  shows "distinct (map fst (positive_entries m order))"
  using assms by (simp add: positive_entries_fst[OF assms] range_order_def)

lemma positive_weights_pos:
  assumes "range_order m order"
  shows "\<forall>w \<in> set (map snd (positive_entries m order)). 0 < w"
  by (auto simp: positive_entries_def)

lemma positive_weights_sum:
  assumes "range_order m order"
  shows "sum_list (map snd (positive_entries m order)) = total_positive m"
proof -
  have d: "distinct (filter (\<lambda>k. the (m k) > 0) order)"
    using assms by (simp add: range_order_def)
  have s: "set (filter (\<lambda>k. the (m k) > 0) order) = {h \<in> dom m. the (m h) > 0}"
    using assms by (auto simp: range_order_def)
  show ?thesis
    unfolding positive_entries_snd[OF assms] total_positive_def
    using sum_list_distinct_conv_sum_set[OF d, of "\<lambda>k. the (m k)"] s by simp
qed

lemma positive_entries_nth:
  assumes "range_order m order" "k < length (positive_entries m order)"
  shows "m (map fst (positive_entries m order) ! k) = Some (map snd (positive_entries m order) ! k)"
    and "0 < map snd (positive_entries m order) ! k"
proof -
  let ?ks = "filter (\<lambda>k. the (m k) > 0) order"
  have l: "k < length ?ks" using assms(2) by (simp add: positive_entries_eq[OF assms(1)])
  then have "?ks ! k \<in> set ?ks" by (rule nth_mem)
  then have i: "?ks ! k \<in> dom m" and p: "the (m (?ks ! k)) > 0"
    using assms(1) by (auto simp: range_order_def)
  have f: "map fst (positive_entries m order) ! k = ?ks ! k"
    using l by (simp add: positive_entries_fst[OF assms(1)])
  have g: "map snd (positive_entries m order) ! k = the (m (?ks ! k))"
    using l by (simp add: positive_entries_snd[OF assms(1)])
  show "m (map fst (positive_entries m order) ! k) = Some (map snd (positive_entries m order) ! k)"
    unfolding f g using i by auto
  show "0 < map snd (positive_entries m order) ! k" unfolding g using p .
qed



subsection \<open>The binary search\<close>

lemma binary_search_spec:
  assumes "sorted cws" "left \<le> right" "right < length cws"
  shows "left \<le> binary_search cws target left right \<and>
         binary_search cws target left right \<le> right \<and>
         (\<forall>i. left \<le> i \<and> i < binary_search cws target left right \<longrightarrow> cws ! i < target) \<and>
         (binary_search cws target left right < right \<longrightarrow>
            target \<le> cws ! binary_search cws target left right)"
  using assms
proof (induction cws target left right rule: binary_search.induct)
  case (1 cws target left right)
  show ?case
  proof (cases "left < right")
    case False
    then have "binary_search cws target left right = left"
      by (subst binary_search.simps) simp
    then show ?thesis using "1.prems" False by simp
  next
    case lr: True
    define mid where "mid = (left + right) div 2"
    have m: "left \<le> mid" "mid < right" using lr by (simp_all add: mid_def)
    show ?thesis
    proof (cases "cws ! mid < target")
      case True
      define k where "k = binary_search cws target (mid + 1) right"
      have e: "binary_search cws target left right = k"
        using lr True unfolding k_def mid_def by (subst binary_search.simps) (simp add: Let_def)
      have ih: "mid + 1 \<le> k \<and> k \<le> right \<and>
         (\<forall>i. mid + 1 \<le> i \<and> i < k \<longrightarrow> cws ! i < target) \<and> (k < right \<longrightarrow> target \<le> cws ! k)"
        unfolding k_def
        using "1.IH"(1)[OF lr refl, folded mid_def, OF True "1.prems"(1) _ "1.prems"(3)] m by simp
      have low: "cws ! i < target" if "i \<le> mid" for i
      proof -
        have "cws ! i \<le> cws ! mid"
          using "1.prems"(1,3) m that by (intro sorted_nth_mono) simp_all
        then show ?thesis using True by simp
      qed
      have all: "cws ! i < target" if "i < k" for i
      proof (cases "i \<le> mid")
        case True
        then show ?thesis by (rule low)
      next
        case False
        then have "mid + 1 \<le> i" by simp
        then show ?thesis using ih that by blast
      qed
      have "left \<le> k" using ih m by simp
      then show ?thesis unfolding e using ih all by blast
    next
      case False
      define k where "k = binary_search cws target left mid"
      have e: "binary_search cws target left right = k"
        using lr False unfolding k_def mid_def by (subst binary_search.simps) (simp add: Let_def)
      have ih: "left \<le> k \<and> k \<le> mid \<and>
         (\<forall>i. left \<le> i \<and> i < k \<longrightarrow> cws ! i < target) \<and> (k < mid \<longrightarrow> target \<le> cws ! k)"
        unfolding k_def
        using "1.IH"(2)[OF lr refl, folded mid_def, OF False "1.prems"(1) m(1)] m "1.prems"(3) by simp
      have up: "target \<le> cws ! k"
      proof (cases "k < mid")
        case True
        then show ?thesis using ih by blast
      next
        case False
        then have "k = mid" using ih by simp
        then show ?thesis using \<open>\<not> cws ! mid < target\<close> by simp
      qed
      have "k \<le> right" using ih m by simp
      then show ?thesis unfolding e using ih up by blast
    qed
  qed
qed


lemma binary_search_char:
  assumes "sorted cws" "cws \<noteq> []" "target \<le> last cws" "j < length cws"
  shows "binary_search cws target 0 (length cws - 1) = j \<longleftrightarrow>
           (j = 0 \<or> cws ! (j - 1) < target) \<and> target \<le> cws ! j"
proof -
  define k where "k = binary_search cws target 0 (length cws - 1)"
  have n: "length cws - 1 < length cws" using assms(2) by simp
  have spec: "k \<le> length cws - 1" "\<And>i. i < k \<Longrightarrow> cws ! i < target"
    "k < length cws - 1 \<Longrightarrow> target \<le> cws ! k"
    using binary_search_spec[OF assms(1) _ n, of 0 target] unfolding k_def by simp_all
  have up: "target \<le> cws ! k"
  proof (cases "k < length cws - 1")
    case True
    then show ?thesis by (rule spec(3))
  next
    case False
    then have "k = length cws - 1" using spec(1) by simp
    then show ?thesis using assms(2,3) by (simp add: last_conv_nth)
  qed
  have "k = j \<longleftrightarrow> (j = 0 \<or> cws ! (j - 1) < target) \<and> target \<le> cws ! j"
  proof
    assume kj: "k = j"
    have "cws ! (j - 1) < target" if "j \<noteq> 0"
      using spec(2)[of "j - 1"] kj that by simp
    then show "(j = 0 \<or> cws ! (j - 1) < target) \<and> target \<le> cws ! j"
      using up kj by blast
  next
    assume r: "(j = 0 \<or> cws ! (j - 1) < target) \<and> target \<le> cws ! j"
    show "k = j"
    proof (rule ccontr)
      assume "k \<noteq> j"
      then consider "k < j" | "j < k" by linarith
      then show False
      proof cases
        case 1
        then have "j \<noteq> 0" "k \<le> j - 1" by simp_all
        then have "cws ! k \<le> cws ! (j - 1)"
          using assms(1,4) by (intro sorted_nth_mono) simp_all
        then show False using r up \<open>j \<noteq> 0\<close> by simp
      next
        case 2
        then show False using spec(2)[of j] r by simp
      qed
    qed
  qed
  then show ?thesis unfolding k_def .
qed

lemma binary_search_bound:
  assumes "sorted cws" "cws \<noteq> []"
  shows "binary_search cws target 0 (length cws - 1) < length cws"
proof -
  have n: "length cws - 1 < length cws" using assms(2) by simp
  show ?thesis using binary_search_spec[OF assms(1) _ n, of 0 target] n by simp
qed

subsection \<open>The invariant of the selector\<close>

lemma ws_inv_New: "ws_inv NewWeightedSelector"
  by (simp add: ws_inv_def NewWeightedSelector_def)

lemma ws_inv_UpdateWeight: "ws_inv (UpdateWeight ws h w)"
  by (simp add: ws_inv_def UpdateWeight_def)

lemma SelectWeighted_snd:
  "snd (SelectWeighted order ws u) = (if needRebuild ws then rebuildWeightTable order ws else ws)"
  by (simp add: SelectWeighted_def Let_def)

lemma rebuildWeightTable_weights: "weights (rebuildWeightTable order ws) = weights ws"
  by (simp add: rebuildWeightTable_eq)


lemma ws_inv_SelectWeighted:
  assumes "ws_inv ws" "range_order (weights ws) order"
  shows "ws_inv (snd (SelectWeighted order ws u))"
proof (cases "needRebuild ws")
  case True
  have "table_of (weights (rebuildWeightTable order ws)) order (rebuildWeightTable order ws)"
    using table_of_rebuild[of ws order] by (simp add: rebuildWeightTable_weights)
  then show ?thesis using True assms(2)
    by (auto simp: ws_inv_def SelectWeighted_snd rebuildWeightTable_weights)
next
  case False
  then show ?thesis using assms(1) by (simp add: SelectWeighted_snd)
qed

lemma ws_reachable_inv: "ws_reachable ws \<Longrightarrow> ws_inv ws"
proof (induction rule: ws_reachable.induct)
  case reach_New
  show ?case by (rule ws_inv_New)
next
  case (reach_UpdateWeight ws progHash weight)
  show ?case by (rule ws_inv_UpdateWeight)
next
  case (reach_SelectWeighted ws order rnd)
  then show ?case by (simp add: ws_inv_SelectWeighted)
qed

lemma SelectWeighted_table:
  assumes "ws_inv ws" "range_order (weights ws) order"
  obtains ord where "range_order (weights ws) ord"
    and "table_of (weights ws) ord (snd (SelectWeighted order ws u))"
    and "\<And>v. snd (SelectWeighted order ws v) = snd (SelectWeighted order ws u)"
proof (cases "needRebuild ws")
  case True
  have "table_of (weights ws) order (snd (SelectWeighted order ws u))"
    using True table_of_rebuild[of ws order] by (simp add: SelectWeighted_snd)
  then show ?thesis using that[of order] assms(2) by (simp add: SelectWeighted_snd)
next
  case False
  then obtain ord where "range_order (weights ws) ord" "table_of (weights ws) ord ws"
    using assms(1) by (auto simp: ws_inv_def)
  then show ?thesis using that[of ord] False by (simp add: SelectWeighted_snd)
qed

lemma SelectWeighted_fst:
  "fst (SelectWeighted order ws u) =
     (let ws1 = snd (SelectWeighted order ws u) in
      if cumulativeWeights ws1 = [] then []
      else progHashes ws1 ! binary_search (cumulativeWeights ws1)
             (u * last (cumulativeWeights ws1)) 0 (length (cumulativeWeights ws1) - 1))"
  by (simp add: SelectWeighted_def Let_def last_conv_nth)


subsection \<open>Selection\<close>

lemma pick_interval:
  fixes cws :: "real list" and hashes :: "string list"
  assumes srt: "sorted cws" and len: "length hashes = length cws" and dist: "distinct hashes"
    and j: "j < length cws" and pos: "\<And>k. k < length cws \<Longrightarrow> 0 < cws ! k"
    and step: "(if j = 0 then 0 else cws ! (j - 1)) < cws ! j"
  defines "a \<equiv> (if j = 0 then 0 else cws ! (j - 1)) / last cws"
    and "b \<equiv> cws ! j / last cws"
  shows "0 \<le> a \<and> a < b \<and> b \<le> 1 \<and>
         {u. 0 \<le> u \<and> u < 1 \<and>
             hashes ! binary_search cws (u * last cws) 0 (length cws - 1) = hashes ! j}
           = (if a = 0 then {0..b} else {a<..b}) \<inter> {0..<1}"
proof -
  have ne: "cws \<noteq> []" using j by auto
  have l: "last cws = cws ! (length cws - 1)" using ne by (rule last_conv_nth)
  have tp: "0 < last cws" unfolding l using ne by (intro pos) simp
  have a0: "0 \<le> a"
  proof (cases "j = 0")
    case True
    then show ?thesis by (simp add: a_def)
  next
    case False
    then have "0 < cws ! (j - 1)" using j by (intro pos) simp
    then show ?thesis using False tp by (simp add: a_def)
  qed
  have ab: "a < b" unfolding a_def b_def using step tp by (simp add: divide_strict_right_mono)
  have "cws ! j \<le> last cws" unfolding l using srt j by (intro sorted_nth_mono) simp_all
  then have b1: "b \<le> 1" unfolding b_def using tp by simp
  have az: "a = 0 \<longleftrightarrow> j = 0"
  proof (cases "j = 0")
    case True
    then show ?thesis by (simp add: a_def)
  next
    case False
    then have "0 < cws ! (j - 1)" using j by (intro pos) simp
    then have "0 < a" using False tp by (simp add: a_def)
    then show ?thesis using False by simp
  qed
  have pick: "hashes ! binary_search cws (u * last cws) 0 (length cws - 1) = hashes ! j
                \<longleftrightarrow> (j = 0 \<or> a < u) \<and> u \<le> b" if u: "0 \<le> u" "u < 1" for u
  proof -
    have t: "u * last cws \<le> last cws" using u tp by (simp add: mult_left_le_one_le)
    have kb: "binary_search cws (u * last cws) 0 (length cws - 1) < length hashes"
      using binary_search_bound[OF srt ne] len by simp
    have "hashes ! binary_search cws (u * last cws) 0 (length cws - 1) = hashes ! j
            \<longleftrightarrow> binary_search cws (u * last cws) 0 (length cws - 1) = j"
      using nth_eq_iff_index_eq[OF dist kb] j len by simp
    also have "\<dots> \<longleftrightarrow> (j = 0 \<or> cws ! (j - 1) < u * last cws) \<and> u * last cws \<le> cws ! j"
      by (rule binary_search_char[OF srt ne t j])
    also have "\<dots> \<longleftrightarrow> (j = 0 \<or> a < u) \<and> u \<le> b"
      unfolding a_def b_def using tp by (auto simp: pos_divide_less_eq pos_le_divide_eq)
    finally show ?thesis .
  qed
  have "{u. 0 \<le> u \<and> u < 1 \<and>
             hashes ! binary_search cws (u * last cws) 0 (length cws - 1) = hashes ! j}
           = (if a = 0 then {0..b} else {a<..b}) \<inter> {0..<1}"
  proof (cases "j = 0")
    case True
    then have "a = 0" using az by simp
    then show ?thesis using pick True by auto
  next
    case False
    then have "a \<noteq> 0" using az by simp
    then show ?thesis using pick False a0 by auto
  qed
  then show ?thesis using a0 ab b1 by blast
qed


lemma table_facts:
  assumes ro: "range_order m ord" and t: "table_of m ord ws1"
  shows "sorted (cumulativeWeights ws1)"
    and "length (progHashes ws1) = length (cumulativeWeights ws1)"
    and "distinct (progHashes ws1)"
    and "set (progHashes ws1) = {h \<in> dom m. the (m h) > 0}"
    and "cumulativeWeights ws1 \<noteq> [] \<Longrightarrow> last (cumulativeWeights ws1) = total_positive m"
    and "\<And>k. k < length (cumulativeWeights ws1) \<Longrightarrow> 0 < cumulativeWeights ws1 ! k"
    and "\<And>k. k < length (cumulativeWeights ws1) \<Longrightarrow>
           m (progHashes ws1 ! k) =
             Some (cumulativeWeights ws1 ! k - (if k = 0 then 0 else cumulativeWeights ws1 ! (k - 1)))"
    and "\<And>k. k < length (cumulativeWeights ws1) \<Longrightarrow>
           (if k = 0 then 0 else cumulativeWeights ws1 ! (k - 1)) < cumulativeWeights ws1 ! k"
proof -
  let ?P = "positive_entries m ord"
  let ?w = "map snd ?P"
  have c: "cumulativeWeights ws1 = prefix_sums 0 ?w" and h: "progHashes ws1 = map fst ?P"
    using t by (simp_all add: table_of_def)
  have p: "\<forall>w \<in> set ?w. 0 < w" by (rule positive_weights_pos[OF ro])
  have lc: "length (cumulativeWeights ws1) = length ?P" by (simp add: c length_prefix_sums)
  show "sorted (cumulativeWeights ws1)" unfolding c by (rule prefix_sums_sorted[OF p])
  show "length (progHashes ws1) = length (cumulativeWeights ws1)" by (simp add: lc h)
  show "distinct (progHashes ws1)" unfolding h by (rule positive_hashes_distinct[OF ro])
  show "set (progHashes ws1) = {h \<in> dom m. the (m h) > 0}"
    unfolding h by (rule positive_hashes_set[OF ro])
  show "last (cumulativeWeights ws1) = total_positive m" if "cumulativeWeights ws1 \<noteq> []"
  proof -
    have "?w \<noteq> []" using that lc by auto
    then show ?thesis unfolding c using prefix_sums_last[of ?w 0] positive_weights_sum[OF ro] by simp
  qed
  have st: "cumulativeWeights ws1 ! k =
              (if k = 0 then 0 else cumulativeWeights ws1 ! (k - 1)) + ?w ! k"
    if "k < length (cumulativeWeights ws1)" for k
    unfolding c using prefix_sums_step[of k ?w 0] that lc by simp
  have wk: "m (progHashes ws1 ! k) = Some (?w ! k)" "0 < ?w ! k"
    if "k < length (cumulativeWeights ws1)" for k
    unfolding h using positive_entries_nth[OF ro, of k] that lc by simp_all
  show "m (progHashes ws1 ! k) =
          Some (cumulativeWeights ws1 ! k - (if k = 0 then 0 else cumulativeWeights ws1 ! (k - 1)))"
    if "k < length (cumulativeWeights ws1)" for k
    using st[OF that] wk(1)[OF that] by simp
  show lt: "(if k = 0 then 0 else cumulativeWeights ws1 ! (k - 1)) < cumulativeWeights ws1 ! k"
    if "k < length (cumulativeWeights ws1)" for k
    using st[OF that] wk(2)[OF that] by simp
  show "0 < cumulativeWeights ws1 ! k" if "k < length (cumulativeWeights ws1)" for k
    using that
  proof (induction k)
    case 0
    then show ?case using lt[of 0] by simp
  next
    case (Suc k)
    then have "0 < cumulativeWeights ws1 ! k" by simp
    then show ?case using lt[OF Suc.prems] by simp
  qed
qed

lemma table_empty_iff:
  assumes "range_order m ord" "table_of m ord ws1"
  shows "cumulativeWeights ws1 = [] \<longleftrightarrow> (\<forall>h w. m h = Some w \<longrightarrow> w \<le> 0)"
proof -
  have "cumulativeWeights ws1 = [] \<longleftrightarrow> progHashes ws1 = []"
    using table_facts(2)[OF assms] by auto
  also have "\<dots> \<longleftrightarrow> {h \<in> dom m. the (m h) > 0} = {}"
    using table_facts(4)[OF assms] by (metis set_empty)
  also have "\<dots> \<longleftrightarrow> (\<forall>h w. m h = Some w \<longrightarrow> w \<le> 0)"
  proof
    assume e: "{h \<in> dom m. the (m h) > 0} = {}"
    show "\<forall>h w. m h = Some w \<longrightarrow> w \<le> 0"
    proof (intro allI impI)
      fix h w assume "m h = Some w"
      then have "h \<in> dom m" "the (m h) = w" by auto
      then show "w \<le> 0" using e by (auto simp: not_less)
    qed
  next
    assume "\<forall>h w. m h = Some w \<longrightarrow> w \<le> 0"
    then show "{h \<in> dom m. the (m h) > 0} = {}" by force
  qed
  finally show ?thesis .
qed

lemma SelectWeighted_in_table:
  assumes "ws_inv ws" "range_order (weights ws) order"
    "cumulativeWeights (snd (SelectWeighted order ws u)) \<noteq> []"
  shows "fst (SelectWeighted order ws u) \<in> set (progHashes (snd (SelectWeighted order ws u)))"
proof -
  obtain ord where ro: "range_order (weights ws) ord"
    and t: "table_of (weights ws) ord (snd (SelectWeighted order ws u))"
    using SelectWeighted_table[OF assms(1,2)] by blast
  let ?ws1 = "snd (SelectWeighted order ws u)"
  have "binary_search (cumulativeWeights ?ws1) (u * last (cumulativeWeights ?ws1)) 0
          (length (cumulativeWeights ?ws1) - 1) < length (progHashes ?ws1)"
    using binary_search_bound[OF table_facts(1)[OF ro t] assms(3)] table_facts(2)[OF ro t] by simp
  then show ?thesis
    using assms(3) by (subst SelectWeighted_fst) (simp add: Let_def)
qed




lemma select_positive:
  assumes inv: "ws_inv ws" and ro: "range_order (weights ws) order"
    and ex: "weights ws h0 = Some w0" "0 < w0"
  shows "\<exists>w. weights ws (fst (SelectWeighted order ws u)) = Some w \<and> 0 < w"
proof -
  obtain ord where r: "range_order (weights ws) ord"
    and t: "table_of (weights ws) ord (snd (SelectWeighted order ws u))"
    using SelectWeighted_table[OF inv ro] by blast
  have ne: "cumulativeWeights (snd (SelectWeighted order ws u)) \<noteq> []"
    using table_empty_iff[OF r t] ex by force
  have "fst (SelectWeighted order ws u) \<in> {h \<in> dom (weights ws). the (weights ws h) > 0}"
    using SelectWeighted_in_table[OF inv ro ne] table_facts(4)[OF r t] by simp
  then show ?thesis by auto
qed

lemma select_none:
  assumes inv: "ws_inv ws" and ro: "range_order (weights ws) order"
    and no: "\<forall>h w. weights ws h = Some w \<longrightarrow> w \<le> 0"
  shows "fst (SelectWeighted order ws u) = []"
proof -
  obtain ord where r: "range_order (weights ws) ord"
    and t: "table_of (weights ws) ord (snd (SelectWeighted order ws u))"
    using SelectWeighted_table[OF inv ro] by blast
  have "cumulativeWeights (snd (SelectWeighted order ws u)) = []"
    using table_empty_iff[OF r t] no by simp
  then show ?thesis by (subst SelectWeighted_fst) (simp add: Let_def)
qed

lemma select_interval:
  assumes inv: "ws_inv ws" and ro: "range_order (weights ws) order"
    and iw: "weights ws i = Some w" "0 < w"
  shows "\<exists>a b. 0 \<le> a \<and> a < b \<and> b \<le> 1 \<and> b - a = w / total_positive (weights ws) \<and>
           {u. 0 \<le> u \<and> u < 1 \<and> fst (SelectWeighted order ws u) = i}
             = (if a = 0 then {0..b} else {a<..b}) \<inter> {0..<1}"
proof -
  define ws1 where "ws1 = snd (SelectWeighted order ws 0)"
  obtain ord where r: "range_order (weights ws) ord"
    and t: "table_of (weights ws) ord ws1"
    and same: "\<And>v. snd (SelectWeighted order ws v) = ws1"
    unfolding ws1_def using SelectWeighted_table[OF inv ro, of 0] by metis
  let ?cws = "cumulativeWeights ws1"
  let ?hs = "progHashes ws1"
  have ne: "?cws \<noteq> []" using table_empty_iff[OF r t] iw by force
  have "i \<in> set ?hs" using table_facts(4)[OF r t] iw by auto
  then obtain j where j: "j < length ?hs" "?hs ! j = i" by (auto simp: in_set_conv_nth)
  have jl: "j < length ?cws" using j(1) table_facts(2)[OF r t] by simp
  define a where "a = (if j = 0 then 0 else ?cws ! (j - 1)) / last ?cws"
  define b where "b = ?cws ! j / last ?cws"
  have pi: "0 \<le> a \<and> a < b \<and> b \<le> 1 \<and>
         {u. 0 \<le> u \<and> u < 1 \<and>
             ?hs ! binary_search ?cws (u * last ?cws) 0 (length ?cws - 1) = ?hs ! j}
           = (if a = 0 then {0..b} else {a<..b}) \<inter> {0..<1}"
    unfolding a_def b_def
    by (rule pick_interval[OF table_facts(1)[OF r t] table_facts(2)[OF r t] table_facts(3)[OF r t]
          jl table_facts(6)[OF r t] table_facts(8)[OF r t jl]])
  have f: "fst (SelectWeighted order ws u) =
             ?hs ! binary_search ?cws (u * last ?cws) 0 (length ?cws - 1)" for u
    using ne by (subst SelectWeighted_fst) (simp add: Let_def same)
  have "Some w = Some (?cws ! j - (if j = 0 then 0 else ?cws ! (j - 1)))"
    using table_facts(7)[OF r t jl] j(2) iw(1) by simp
  then have w: "w = ?cws ! j - (if j = 0 then 0 else ?cws ! (j - 1))" by simp
  have "b - a = w / last ?cws" unfolding a_def b_def w by (simp add: diff_divide_distrib)
  then have ba: "b - a = w / total_positive (weights ws)"
    using table_facts(5)[OF r t ne] by simp
  have "{u. 0 \<le> u \<and> u < 1 \<and> fst (SelectWeighted order ws u) = i}
          = (if a = 0 then {0..b} else {a<..b}) \<inter> {0..<1}"
    using pi unfolding f j(2) by blast
  then show ?thesis using pi ba by blast
qed

lemma wit_selector_ok:
  "ws_reachable wit_selector" "range_order (weights wit_selector) [''A'', ''B'']"
  "weights wit_selector ''A'' = Some 1" "weights wit_selector ''B'' = Some 9"
proof -
  show "ws_reachable wit_selector"
    unfolding wit_selector_def by (intro reach_UpdateWeight reach_New)
  show "range_order (weights wit_selector) [''A'', ''B'']"
    by (auto simp: range_order_def wit_selector_def UpdateWeight_def NewWeightedSelector_def)
  show "weights wit_selector ''A'' = Some 1" "weights wit_selector ''B'' = Some 9"
    by (simp_all add: wit_selector_def UpdateWeight_def NewWeightedSelector_def)
qed


lemma wit_selector_table:
  "snd (SelectWeighted [''A'', ''B''] wit_selector u) =
     wit_selector\<lparr>cumulativeWeights := [1, 10], progHashes := [''A'', ''B''], needRebuild := False\<rparr>"
  by (simp add: SelectWeighted_snd rebuildWeightTable_eq positive_entries_def range_pairs_def
      List.map_filter_simps wit_selector_def UpdateWeight_def NewWeightedSelector_def)

lemma wit_selector_pick: "fst (SelectWeighted [''A'', ''B''] wit_selector (1 / 2)) = ''B''"
proof -
  have "binary_search [1, 10] 5 0 1 = binary_search [1, 10] 5 1 1"
    by (subst binary_search.simps) (simp add: Let_def)
  also have "\<dots> = 1"
    by (subst binary_search.simps) simp
  finally have "binary_search [1, 10] 5 0 1 = 1" .
  then show ?thesis
    by (subst SelectWeighted_fst) (simp add: wit_selector_table Let_def)
qed





text \<open>
  Claim C1. On a selector that the code can produce, and for every order in which a rebuild
  can iterate over the weight map: when at least one identity has a weight \<open>> 0\<close>,
  \<^verbatim>\<open>SelectWeighted(u)\<close> returns, for every \<open>u\<close>, an identity with a positive weight, and
  for every identity \<open>i\<close> with a positive weight \<open>w\<close> the set of the \<open>u\<close> in \<open>[0, 1)\<close> for which
  \<open>i\<close> is returned is an interval between two points \<open>a < b\<close> of \<open>[0, 1]\<close> (cut to \<open>[0, 1)\<close>) with
  \<open>b - a = w / total\<close>, where \<open>total\<close> is the sum of the positive weights: a set of measure
  \<open>w / total\<close>. When no identity has a positive weight, \<^verbatim>\<open>SelectWeighted\<close> returns the empty
  identity.
\<close>

theorem SelectWeighted_distribution:
  "ws_reachable ws \<and> range_order (weights ws) order \<longrightarrow>
     ((\<exists>h w. weights ws h = Some w \<and> 0 < w) \<longrightarrow>
        (\<forall>u. \<exists>w. weights ws (fst (SelectWeighted order ws u)) = Some w \<and> 0 < w) \<and>
        (\<forall>i w. weights ws i = Some w \<and> 0 < w \<longrightarrow>
           (\<exists>a b. 0 \<le> a \<and> a < b \<and> b \<le> 1 \<and> b - a = w / total_positive (weights ws) \<and>
              {u. 0 \<le> u \<and> u < 1 \<and> fst (SelectWeighted order ws u) = i}
                = (if a = 0 then {0..b} else {a<..b}) \<inter> {0..<1}))) \<and>
     ((\<forall>h w. weights ws h = Some w \<longrightarrow> w \<le> 0) \<longrightarrow>
        (\<forall>u. fst (SelectWeighted order ws u) = []))"
proof (intro impI)
  assume "ws_reachable ws \<and> range_order (weights ws) order"
  then have inv: "ws_inv ws" and ro: "range_order (weights ws) order"
    by (simp_all add: ws_reachable_inv)
  show "((\<exists>h w. weights ws h = Some w \<and> 0 < w) \<longrightarrow>
        (\<forall>u. \<exists>w. weights ws (fst (SelectWeighted order ws u)) = Some w \<and> 0 < w) \<and>
        (\<forall>i w. weights ws i = Some w \<and> 0 < w \<longrightarrow>
           (\<exists>a b. 0 \<le> a \<and> a < b \<and> b \<le> 1 \<and> b - a = w / total_positive (weights ws) \<and>
              {u. 0 \<le> u \<and> u < 1 \<and> fst (SelectWeighted order ws u) = i}
                = (if a = 0 then {0..b} else {a<..b}) \<inter> {0..<1}))) \<and>
     ((\<forall>h w. weights ws h = Some w \<longrightarrow> w \<le> 0) \<longrightarrow>
        (\<forall>u. fst (SelectWeighted order ws u) = []))"
    using select_positive[OF inv ro] select_interval[OF inv ro] select_none[OF inv ro]
    by blast
qed


theorem SelectWeighted_distribution_witness:
  "fst (SelectWeighted [''A'', ''B''] wit_selector (1 / 2)) = ''B'' \<and>
   (\<exists>w. weights wit_selector (fst (SelectWeighted [''A'', ''B''] wit_selector (1 / 2))) = Some w \<and> 0 < w) \<and>
   (\<exists>a b. 0 \<le> a \<and> a < b \<and> b \<le> 1 \<and> b - a = 9 / total_positive (weights wit_selector) \<and>
      {u. 0 \<le> u \<and> u < 1 \<and> fst (SelectWeighted [''A'', ''B''] wit_selector u) = ''B''}
        = (if a = 0 then {0..b} else {a<..b}) \<inter> {0..<1}) \<and>
   fst (SelectWeighted [] NewWeightedSelector (1 / 2)) = []"
proof -
  have p: "\<exists>h w. weights wit_selector h = Some w \<and> 0 < w"
    using wit_selector_ok(3) by (intro exI[of _ "''A''"] exI[of _ 1]) simp
  have n: "ws_reachable NewWeightedSelector \<and> range_order (weights NewWeightedSelector) []"
    using reach_New by (simp add: range_order_def NewWeightedSelector_def)
  have z: "\<forall>h w. weights NewWeightedSelector h = Some w \<longrightarrow> w \<le> 0"
    by (simp add: NewWeightedSelector_def)
  have r: "ws_reachable wit_selector \<and> range_order (weights wit_selector) [''A'', ''B'']"
    using wit_selector_ok(1,2) by simp
  note t0 = SelectWeighted_distribution[of NewWeightedSelector "[]", THEN mp, OF n]
  note t1 = SelectWeighted_distribution[of wit_selector "[''A'', ''B'']", THEN mp, OF r]
  have e: "fst (SelectWeighted [] NewWeightedSelector (1 / 2)) = []"
    using t0[THEN conjunct2, THEN mp, OF z] by simp
  note t2 = t1[THEN conjunct1, THEN mp, OF p]
  have s: "\<exists>w. weights wit_selector (fst (SelectWeighted [''A'', ''B''] wit_selector (1 / 2))) = Some w \<and> 0 < w"
    using t2[THEN conjunct1] by simp
  have b: "weights wit_selector ''B'' = Some 9 \<and> (0::real) < 9"
    using wit_selector_ok(4) by simp
  have i: "\<exists>a b. 0 \<le> a \<and> a < b \<and> b \<le> 1 \<and> b - a = 9 / total_positive (weights wit_selector) \<and>
      {u. 0 \<le> u \<and> u < 1 \<and> fst (SelectWeighted [''A'', ''B''] wit_selector u) = ''B''}
        = (if a = 0 then {0..b} else {a<..b}) \<inter> {0..<1}"
    using t2[THEN conjunct2, THEN spec, of "''B''", THEN spec, of 9, THEN mp, OF b] .
  show ?thesis using wit_selector_pick s i e by (intro conjI)
qed



end
